theory Spec2Isabelle
  imports Complex_Main "HOL-Library.Sublist" "HOL-Library.Multiset"
begin

section \<open>Python strings\<close>

text \<open>
  A Python \<open>str\<close> is modelled as a \<open>string\<close> (a list of characters).  The character
  classes below are the ones Python's \<open>str\<close> methods and the \<open>re\<close> module use, on
  ASCII text: \<open>\d\<close> is \<open>0-9\<close>, \<open>[A-Za-z]\<close> the letters, \<open>\w\<close>
  letters, digits and the underscore, and \<open>\s\<close> (also the set \<open>strip()\<close> and
  \<open>split()\<close> use) the code points 9-13 and 28-32.
\<close>

definition is_digit :: "char \<Rightarrow> bool" where
  "is_digit c = (let n = (of_char c :: nat) in 48 \<le> n \<and> n \<le> 57)"

definition is_alpha :: "char \<Rightarrow> bool" where
  "is_alpha c = (let n = (of_char c :: nat) in (65 \<le> n \<and> n \<le> 90) \<or> (97 \<le> n \<and> n \<le> 122))"

definition is_alnum :: "char \<Rightarrow> bool" where
  "is_alnum c = (is_alpha c \<or> is_digit c)"

definition is_word :: "char \<Rightarrow> bool" where
  "is_word c = (is_alnum c \<or> c = CHR ''_'')"

definition is_space :: "char \<Rightarrow> bool" where
  "is_space c = (let n = (of_char c :: nat) in (9 \<le> n \<and> n \<le> 13) \<or> (28 \<le> n \<and> n \<le> 32))"

text \<open>\<open>s.strip()\<close>: leading and trailing whitespace removed.\<close>

definition strip :: "string \<Rightarrow> string" where
  "strip s = rev (dropWhile is_space (rev (dropWhile is_space s)))"

text \<open>
  \<open>s.replace(old, new)\<close>: every occurrence of \<open>old\<close>, found left to right without
  overlap, is replaced.  The program only calls it with a non-empty \<open>old\<close>.
\<close>

fun replace_all :: "string \<Rightarrow> string \<Rightarrow> string \<Rightarrow> string" where
  "replace_all old new [] = []"
| "replace_all old new (c # cs) =
     (if old \<noteq> [] \<and> take (length old) (c # cs) = old
      then new @ replace_all old new (drop (length old) (c # cs))
      else c # replace_all old new cs)"

text \<open>\<open>sub in s\<close> on strings: \<open>sub\<close> occurs as a contiguous piece of \<open>s\<close>.\<close>

fun contains :: "string \<Rightarrow> string \<Rightarrow> bool" where
  "contains sub [] = (sub = [])"
| "contains sub (c # cs) = (take (length sub) (c # cs) = sub \<or> contains sub cs)"

section \<open>Regular expressions\<close>

text \<open>
  The patterns of the program are built from quantified character classes, capturing
  groups that are not nested, alternatives, the word boundary \<open>\b\<close> and the end anchor
  \<open>$\<close>.  \<open>Cls C lo hi greedy\<close> is the class \<open>C\<close> repeated from \<open>lo\<close> to \<open>hi\<close>
  times (\<open>None\<close>: unbounded), greedy or lazy.  Matching is Python's backtracking search:
  \<open>rx_seq\<close> lists every way the pattern matches at the current position, in the order the
  backtracking matcher tries them, so the head of the list is the match \<open>re\<close> reports.
  A matcher state is the list of groups captured so far, the character before the
  current position (for \<open>\b\<close>), and the text not yet consumed.
\<close>

datatype rx =
    Cls "char \<Rightarrow> bool" nat "nat option" bool
  | Grp "rx list"
  | Alt "rx list list"
  | Wb
  | Eol

type_synonym mstate = "string list \<times> char option \<times> string"

definition lens :: "nat \<Rightarrow> nat \<Rightarrow> bool \<Rightarrow> nat list" where
  "lens lo hi greedy = (if greedy then rev [lo ..< Suc hi] else [lo ..< Suc hi])"

fun advance :: "mstate \<Rightarrow> nat \<Rightarrow> mstate" where
  "advance (gs, prev, s) k = (gs, (if k = 0 then prev else Some (s ! (k - 1))), drop k s)"

definition word_before :: "char option \<Rightarrow> bool" where
  "word_before prev = (case prev of None \<Rightarrow> False | Some c \<Rightarrow> is_word c)"

definition word_after :: "string \<Rightarrow> bool" where
  "word_after s = (case s of [] \<Rightarrow> False | c # _ \<Rightarrow> is_word c)"

fun rx_seq :: "rx list \<Rightarrow> mstate \<Rightarrow> mstate list"
and rx_one :: "rx \<Rightarrow> mstate \<Rightarrow> mstate list" where
  "rx_seq [] st = [st]"
| "rx_seq (r # rs) st = concat (map (rx_seq rs) (rx_one r st))"
| "rx_one (Cls C lo hi greedy) (gs, prev, s) =
     (let run = length (takeWhile C s);
          top = (case hi of None \<Rightarrow> run | Some h \<Rightarrow> min h run)
      in map (advance (gs, prev, s)) (lens lo top greedy))"
| "rx_one (Grp rs) (gs, prev, s) =
     map (\<lambda>(gs', prev', s'). (gs' @ [take (length s - length s') s], prev', s'))
         (rx_seq rs (gs, prev, s))"
| "rx_one (Alt alts) st = concat (map (\<lambda>a. rx_seq a st) alts)"
| "rx_one Wb (gs, prev, s) = (if word_before prev \<noteq> word_after s then [(gs, prev, s)] else [])"
| "rx_one Eol (gs, prev, s) = (if s = [] \<or> s = [CHR 0x0A] then [(gs, prev, s)] else [])"

text \<open>
  A match object: where the match starts (\<open>m.start()\<close>), the matched text
  (\<open>m.group(0)\<close>), the captured groups (\<open>m.group(1)\<close>, ...) and the text after the
  match (\<open>s[m.end():]\<close>).
\<close>

record rmatch =
  m_start :: nat
  m_text :: string
  m_groups :: "string list"
  m_rest :: string

definition mk_match :: "nat \<Rightarrow> string \<Rightarrow> mstate \<Rightarrow> rmatch" where
  "mk_match n s st = (case st of (gs, prev, rest) \<Rightarrow>
     \<lparr>m_start = n, m_text = take (length s - length rest) s, m_groups = gs, m_rest = rest\<rparr>)"

text \<open>\<open>re.search\<close> tries the start positions from left to right.\<close>

fun re_scan :: "rx list \<Rightarrow> char option \<Rightarrow> nat \<Rightarrow> string \<Rightarrow> rmatch option" where
  "re_scan p prev n [] =
     (case rx_seq p ([], prev, []) of [] \<Rightarrow> None | st # _ \<Rightarrow> Some (mk_match n [] st))"
| "re_scan p prev n (c # cs) =
     (case rx_seq p ([], prev, c # cs) of
        [] \<Rightarrow> re_scan p (Some c) (Suc n) cs
      | st # _ \<Rightarrow> Some (mk_match n (c # cs) st))"

definition re_search :: "rx list \<Rightarrow> string \<Rightarrow> rmatch option" where
  "re_search p s = re_scan p None 0 s"

definition group :: "rmatch \<Rightarrow> nat \<Rightarrow> string" where
  "group m i = (if i = 0 then m_text m else m_groups m ! (i - 1))"

abbreviation plus :: "(char \<Rightarrow> bool) \<Rightarrow> rx" where
  "plus C \<equiv> Cls C (Suc 0) None True"

section \<open>Code normalizer\<close>

text \<open>The pattern \<open>(\d+)([A-Za-z]+)(\d+)([A-Za-z]+)([A-Za-z0-9]+)\<close>.\<close>

definition pat_normalize :: "rx list" where
  "pat_normalize = [Grp [plus is_digit], Grp [plus is_alpha], Grp [plus is_digit],
                    Grp [plus is_alpha], Grp [plus is_alnum]]"

definition normalize_subject_code :: "string \<Rightarrow> string" where
  "normalize_subject_code code =
     (let code = replace_all '' '' [] (strip code)
      in case re_search pat_normalize code of
           Some m \<Rightarrow> group m 0
         | None \<Rightarrow> code)"

text \<open>The pattern \<open>(\d+)([A-Za-z]+)(\d+)([A-Za-z]+)\<close>.\<close>

definition pat_core :: "rx list" where
  "pat_core = [Grp [plus is_digit], Grp [plus is_alpha], Grp [plus is_digit], Grp [plus is_alpha]]"

type_synonym parts = "string option \<times> string option \<times> string option \<times> string option"

definition extract_core_code_parts :: "string \<Rightarrow> parts" where
  "extract_core_code_parts code =
     (case re_search pat_core code of
        Some m \<Rightarrow> (Some (group m 1), Some (group m 2), Some (group m 3), Some (group m 4))
      | None \<Rightarrow> (None, None, None, None))"

declare rx_seq.simps [simp del] rx_one.simps [simp del]

section \<open>Python numbers\<close>

text \<open>
  A Python \<open>float\<close> is an IEEE binary64 number; it is modelled by the real number it
  denotes, and every arithmetic operation rounds its exact result to the nearest number
  with a 53-bit significand, ties to even (\<open>fl\<close>).  The model covers the normal range of
  binary64: overflow to infinity, NaN and subnormal numbers are outside it.  A Python
  \<open>int\<close> that takes part in float arithmetic is the real number of the same value.

  \<open>flog2 x\<close> is the exponent of \<open>x\<close>, the integer \<open>k\<close> with \<open>2^k \<le> x < 2^(k+1)\<close>.
\<close>

fun ilog2 :: "nat \<Rightarrow> nat" where
  "ilog2 n = (if n < 2 then 0 else Suc (ilog2 (n div 2)))"

declare ilog2.simps [simp del]

definition flog2 :: "real \<Rightarrow> int" where
  "flog2 x =
     (if 1 \<le> x then int (ilog2 (nat \<lfloor>x\<rfloor>))
      else let l = int (ilog2 (nat \<lfloor>1 / x\<rfloor>))
           in if 2 powi (- l) \<le> x then - l else - l - 1)"

definition round_half_even :: "real \<Rightarrow> int" where
  "round_half_even y =
     (let f = \<lfloor>y\<rfloor>; d = y - of_int f
      in if d < 1 / 2 then f else if 1 / 2 < d then f + 1 else if even f then f else f + 1)"

definition fl :: "real \<Rightarrow> real" where
  "fl x = (if x = 0 then 0
           else let e = flog2 \<bar>x\<bar> - 52
                in of_int (round_half_even (x / 2 powi e)) * 2 powi e)"

datatype py_error = ZeroDivisionError | IndexError | KeyError | TypeError

definition fadd :: "real \<Rightarrow> real \<Rightarrow> real" where
  "fadd x y = fl (x + y)"

definition fmul :: "real \<Rightarrow> real \<Rightarrow> real" where
  "fmul x y = fl (x * y)"

text \<open>\<open>x / y\<close> raises \<open>ZeroDivisionError\<close> when \<open>y\<close> is zero.\<close>

definition fdiv :: "real \<Rightarrow> real \<Rightarrow> py_error + real" where
  "fdiv x y = (if y = 0 then Inl ZeroDivisionError else Inr (fl (x / y)))"

text \<open>
  \<open>round(x, n)\<close> on a float: the exact value of \<open>x\<close> is rounded to \<open>n\<close> decimals, ties
  to even, and the decimal result is converted back to the nearest float.
\<close>

definition py_round :: "real \<Rightarrow> nat \<Rightarrow> real" where
  "py_round x n = fl (of_int (round_half_even (x * 10 ^ n)) / 10 ^ n)"

section \<open>Dictionaries and the fixed tables\<close>

text \<open>
  A Python \<open>dict\<close> keeps its keys in insertion order, and the program depends on that
  order where it returns the first key that passes a test.  A dictionary is modelled as
  an association list with distinct keys: \<open>map_of d k\<close> is the lookup, \<open>map fst d\<close> the
  keys in iteration order, and \<open>dict_set\<close> the assignment \<open>d[k] = v\<close>, which keeps the
  position of a key already present and appends a new key.
\<close>

fun dict_set :: "('k \<times> 'v) list \<Rightarrow> 'k \<Rightarrow> 'v \<Rightarrow> ('k \<times> 'v) list" where
  "dict_set [] k v = [(k, v)]"
| "dict_set ((k', v') # d) k v =
     (if k' = k then (k, v) # d else (k', v') # dict_set d k v)"

definition has_key :: "('k \<times> 'v) list \<Rightarrow> 'k \<Rightarrow> bool" where
  "has_key d k = (map_of d k \<noteq> None)"

definition GRADE_POINTS :: "(string \<times> int) list" where
  "GRADE_POINTS = [(''O'', 10), (''A+'', 9), (''A'', 8), (''B+'', 7), (''B'', 6),
                   (''C'', 5), (''P'', 4), (''F'', 0)]"

text \<open>\<open>GRADE_POINTS.get(grade, 0)\<close>.\<close>

definition grade_points_get :: "string \<Rightarrow> int" where
  "grade_points_get g = (case map_of GRADE_POINTS g of Some p \<Rightarrow> p | None \<Rightarrow> 0)"

text \<open>The keys of \<open>DEPARTMENT_CODES\<close>, in the order the dictionary literal lists them.\<close>

definition DEPARTMENT_CODES :: "string list" where
  "DEPARTMENT_CODES = [''CV'', ''ME'', ''ES'', ''EC'', ''IM'', ''CS'', ''ET'', ''IS'', ''EI'',
                       ''MD'', ''CH'', ''BT'', ''AS'', ''AM'', ''DS'', ''DC'', ''AI'', ''BS'']"

section \<open>Combined subjects\<close>

text \<open>
  An entry of the combined data: the dictionary \<open>combine_data\<close> builds for a subject.
  \<open>calculate_sgpa\<close> tests whether the key \<open>credit\<close> is present, so the field is
  optional.
\<close>

record combined =
  c_name :: string
  c_credit :: "real option"
  c_grade :: string
  c_grade_point :: int
  c_weighted_point :: real


section \<open>More string operations\<close>

text \<open>\<open>s.lower()\<close> and \<open>s.upper()\<close> on ASCII text.\<close>

definition to_lower :: "char \<Rightarrow> char" where
  "to_lower c = (let n = (of_char c :: nat) in if 65 \<le> n \<and> n \<le> 90 then char_of (n + 32) else c)"


definition lower :: "string \<Rightarrow> string" where
  "lower s = map to_lower s"



text \<open>
  \<open>s.split()[0]\<close>: the first whitespace-delimited token; \<open>IndexError\<close> when the string
  has none.
\<close>

definition split_first :: "string \<Rightarrow> py_error + string" where
  "split_first s =
     (let t = dropWhile is_space s
      in if t = [] then Inl IndexError else Inr (takeWhile (\<lambda>c. \<not> is_space c) t))"

text \<open>\<open>s[0]\<close> on a value that may be \<open>None\<close>.\<close>

definition index0 :: "string option \<Rightarrow> py_error + char" where
  "index0 v = (case v of None \<Rightarrow> Inl TypeError | Some [] \<Rightarrow> Inl IndexError | Some (c # cs) \<Rightarrow> Inr c)"

text \<open>The truth value of a string or \<open>None\<close>: false for \<open>None\<close> and for the empty string.\<close>

definition truthy :: "string option \<Rightarrow> bool" where
  "truthy v = (case v of None \<Rightarrow> False | Some s \<Rightarrow> s \<noteq> [])"

text \<open>
  \<open>all([year, dept, sem, type_code])\<close>: the four parts when each of them is a non-empty
  string.
\<close>

fun all_parts ::
  "string option \<times> string option \<times> string option \<times> string option \<Rightarrow>
     (string \<times> string \<times> string \<times> string) option" where
  "all_parts (Some year, Some dept, Some sem, Some type_code) =
     (if year \<noteq> [] \<and> dept \<noteq> [] \<and> sem \<noteq> [] \<and> type_code \<noteq> []
      then Some (year, dept, sem, type_code) else None)"
| "all_parts other = None"

text \<open>\<open>d.get(k, default)\<close>.\<close>

definition dict_get :: "('k \<times> 'v) list \<Rightarrow> 'k \<Rightarrow> 'v \<Rightarrow> 'v" where
  "dict_get d k dflt = (case map_of d k of Some v \<Rightarrow> v | None \<Rightarrow> dflt)"

text \<open>A literal piece of a pattern, and a single occurrence of a class.\<close>

definition lit :: "string \<Rightarrow> rx list" where
  "lit s = map (\<lambda>ch. Cls (\<lambda>c. c = ch) 1 (Some 1) True) s"

abbreviation one :: "(char \<Rightarrow> bool) \<Rightarrow> rx" where
  "one C \<equiv> Cls C 1 (Some 1) True"

section \<open>Matcher\<close>

record result_rec =
  r_name :: string
  r_grade :: string
  r_normalized_code :: string

definition special_keywords :: "(string \<times> string) list" where
  "special_keywords =
     [(''BFE'', ''Biology for Engineers''), (''FBE'', ''Biology for Engineers''),
      (''ENV'', ''Environmental Studies''), (''CPH'', ''Constitution of India''),
      (''MAT'', ''Mathematics'')]"

text \<open>
  The stages of \<open>find_matching_code\<close> after the structural parts have been extracted;
  each is one loop of the source over the keys of \<open>course_credits\<close> in dictionary order.
\<close>

fun special_stage :: "(string \<times> string) list \<Rightarrow> string \<Rightarrow> string \<Rightarrow> string list \<Rightarrow> string option" where
  "special_stage [] subject_code name codes = None"
| "special_stage ((keyword, subject) # rest) subject_code name codes =
     (if contains keyword subject_code \<or> contains subject name
      then (case find (contains keyword) codes of
              Some code \<Rightarrow> Some code
            | None \<Rightarrow> special_stage rest subject_code name codes)
      else special_stage rest subject_code name codes)"

fun name_stage ::
  "(string \<times> string) list \<Rightarrow> string \<Rightarrow> string \<Rightarrow> string \<Rightarrow> string list \<Rightarrow> py_error + string option" where
  "name_stage subject_names year sem name [] = Inr None"
| "name_stage subject_names year sem name (code # rest) =
     (case extract_core_code_parts code of (year2, dept2, sem2, type2) \<Rightarrow>
        if year2 = Some year \<and> sem2 = Some sem
        then (if name \<noteq> [] \<and> 3 < length name
              then (case split_first (lower name) of
                      Inl e \<Rightarrow> Inl e
                    | Inr search_term \<Rightarrow>
                        if contains search_term (lower (dict_get subject_names code []))
                        then Inr (Some code)
                        else name_stage subject_names year sem name rest)
              else name_stage subject_names year sem name rest)
        else name_stage subject_names year sem name rest)"

text \<open>
  The fuzzy stage.  \<open>ratio a b\<close> stands for \<open>SequenceMatcher(None, a, b).ratio()\<close> of
  Python's \<open>difflib\<close>, a library outside this repository; the matcher is modelled for
  any such function.
\<close>

fun fuzzy_stage ::
  "(string \<Rightarrow> string \<Rightarrow> real) \<Rightarrow> string \<Rightarrow> string \<Rightarrow> string list \<Rightarrow>
     string option \<times> real \<Rightarrow> string option \<times> real" where
  "fuzzy_stage ratio sem normalized_code [] acc = acc"
| "fuzzy_stage ratio sem normalized_code (code # rest) (best_match, highest_similarity) =
     (if contains sem code
      then (let similarity = ratio normalized_code code
            in if highest_similarity < similarity
               then fuzzy_stage ratio sem normalized_code rest (Some code, similarity)
               else fuzzy_stage ratio sem normalized_code rest (best_match, highest_similarity))
      else fuzzy_stage ratio sem normalized_code rest (best_match, highest_similarity))"

definition semester_stage :: "string \<Rightarrow> string list \<Rightarrow> string option" where
  "semester_stage sem codes =
     find (\<lambda>code. case extract_core_code_parts code of (year2, dept2, sem2, type2) \<Rightarrow>
             sem2 = Some sem) codes"

definition find_matching_code ::
  "(string \<Rightarrow> string \<Rightarrow> real) \<Rightarrow> string \<Rightarrow> (string \<times> real) list \<Rightarrow> (string \<times> string) list \<Rightarrow>
     (string \<times> string) list \<Rightarrow> result_rec \<Rightarrow> py_error + string option" where
  "find_matching_code ratio subject_code course_credits subject_names subject_name_map
       result_subject_data =
     (let normalized_code = normalize_subject_code subject_code;
          codes = map fst course_credits
      in if has_key course_credits normalized_code then Inr (Some normalized_code)
         else
           let subject_name = replace_all '' '' [] (lower (r_name result_subject_data));
               by_name = (case map_of subject_name_map subject_name of
                            None \<Rightarrow> None
                          | Some matching_code \<Rightarrow>
                              if has_key course_credits matching_code then Some matching_code
                              else None)
           in case by_name of
                Some matching_code \<Rightarrow> Inr (Some matching_code)
              | None \<Rightarrow>
                 (case all_parts (extract_core_code_parts normalized_code) of
                    None \<Rightarrow> Inr None
                  | Some (year, dept, sem, type_code) \<Rightarrow>
                      (case special_stage special_keywords subject_code
                              (r_name result_subject_data) codes of
                         Some code \<Rightarrow> Inr (Some code)
                       | None \<Rightarrow>
                      (case name_stage subject_names year sem
                              (r_name result_subject_data) codes of
                         Inl e \<Rightarrow> Inl e
                       | Inr (Some code) \<Rightarrow> Inr (Some code)
                       | Inr None \<Rightarrow>
                      (case find (contains (year @ sem @ take 1 type_code)) codes of
                         Some code \<Rightarrow> Inr (Some code)
                       | None \<Rightarrow>
                      (case fuzzy_stage ratio sem normalized_code codes (None, 0) of
                         (best_match, highest_similarity) \<Rightarrow>
                           if 1 / 2 < highest_similarity then Inr best_match
                           else Inr (semester_stage sem codes)))))))"

section \<open>Result parser\<close>

text \<open>
  \<open>text.split('\n')\<close>: the pieces between the newlines; a text without a newline is one
  line.
\<close>

fun split_on :: "char \<Rightarrow> string \<Rightarrow> string list" where
  "split_on sep [] = [[]]"
| "split_on sep (c # cs) =
     (if c = sep then [] # split_on sep cs
      else (case split_on sep cs of
              x # xs \<Rightarrow> (c # x) # xs
            | [] \<Rightarrow> [[c]]))"

text \<open>
  The class \<open>.\<close> (any character but a newline), the class \<open>[OABCPFo+]\<close>, and a literal
  under \<open>re.IGNORECASE\<close>.
\<close>

definition dot :: "char \<Rightarrow> bool" where
  "dot c = (c \<noteq> CHR 0x0A)"


definition lit_ci :: "string \<Rightarrow> rx list" where
  "lit_ci s = map (\<lambda>ch. Cls (\<lambda>c. to_lower c = to_lower ch) 1 (Some 1) True) s"






















section \<open>Combining results with course data\<close>

text \<open>The entry \<open>combine_data\<close> stores for a subject with a credit.\<close>

definition combined_entry :: "string \<Rightarrow> real \<Rightarrow> string \<Rightarrow> combined" where
  "combined_entry name credit grade =
     \<lparr>c_name = name, c_credit = Some credit, c_grade = grade,
      c_grade_point = grade_points_get grade,
      c_weighted_point = fmul credit (of_int (grade_points_get grade))\<rparr>"

record unmatched =
  u_code :: string
  u_name :: string
  u_grade :: string


text \<open>\<open>d[k]\<close>, which raises \<open>KeyError\<close> when the key is missing.\<close>

definition dict_at :: "('k \<times> 'v) list \<Rightarrow> 'k \<Rightarrow> py_error + 'v" where
  "dict_at d k = (case map_of d k of None \<Rightarrow> Inl KeyError | Some v \<Rightarrow> Inr v)"





text \<open>
  The second chance for an unmatched subject.  First the special cases: for the first
  keyword found in the subject's name that has a course code matching its pattern, the
  subject is stored with that code's credit.
\<close>

definition special_cases :: "(string \<times> rx list) list" where
  "special_cases =
     [(''Biology'', [Alt [lit ''BFE'', lit ''FBE'']]), (''Environment'', lit ''ENV''),
      (''Constitution'', lit ''CPH''), (''Math'', lit ''MAT'')]"

fun special_pass ::
  "(string \<times> rx list) list \<Rightarrow> (string \<times> real) list \<Rightarrow> (string \<times> string) list \<Rightarrow> unmatched \<Rightarrow>
     (string \<times> combined) list \<Rightarrow> py_error + (string \<times> combined) list" where
  "special_pass [] course_credits subject_names subj combined_data = Inr combined_data"
| "special_pass ((keyword, pattern) # rest) course_credits subject_names subj combined_data =
     (if contains keyword (u_name subj)
      then (case filter (\<lambda>code. re_search pattern code \<noteq> None) (map fst course_credits) of
              [] \<Rightarrow> special_pass rest course_credits subject_names subj combined_data
            | code # others \<Rightarrow>
                (case dict_at course_credits code of
                   Inl e \<Rightarrow> Inl e
                 | Inr credit \<Rightarrow>
                     Inr (dict_set combined_data (u_code subj)
                            (combined_entry (dict_get subject_names code (u_name subj)) credit
                               (u_grade subj)))))
      else special_pass rest course_credits subject_names subj combined_data)"

text \<open>
  Then the match by semester and type: the test
  \<open>code_sem == sem and (type_code == code_type or type_code[0] == code_type[0])\<close>,
  evaluated left to right with the indexing as Python performs it.
\<close>

definition sem_type_test ::
  "string \<Rightarrow> string option \<Rightarrow> string option \<Rightarrow> string option \<Rightarrow> py_error + bool" where
  "sem_type_test sem type_code code_sem code_type =
     (if code_sem \<noteq> Some sem then Inr False
      else if type_code = code_type then Inr True
      else (case index0 type_code of
              Inl e \<Rightarrow> Inl e
            | Inr a \<Rightarrow> (case index0 code_type of Inl e \<Rightarrow> Inl e | Inr b \<Rightarrow> Inr (a = b))))"

fun sem_type_pass ::
  "string list \<Rightarrow> (string \<times> real) list \<Rightarrow> (string \<times> string) list \<Rightarrow> unmatched \<Rightarrow> string \<Rightarrow>
     string option \<Rightarrow> (string \<times> combined) list \<Rightarrow> py_error + (string \<times> combined) list" where
  "sem_type_pass [] course_credits subject_names subj sem type_code combined_data =
     Inr combined_data"
| "sem_type_pass (code # rest) course_credits subject_names subj sem type_code combined_data =
     (case extract_core_code_parts code of (y, d, code_sem, code_type) \<Rightarrow>
        (case sem_type_test sem type_code code_sem code_type of
           Inl e \<Rightarrow> Inl e
         | Inr True \<Rightarrow>
             (case dict_at course_credits code of
                Inl e \<Rightarrow> Inl e
              | Inr credit \<Rightarrow>
                  Inr (dict_set combined_data (u_code subj)
                         (combined_entry (dict_get subject_names code (u_name subj)) credit
                            (u_grade subj))))
         | Inr False \<Rightarrow>
             sem_type_pass rest course_credits subject_names subj sem type_code combined_data))"

definition second_chance ::
  "(string \<times> real) list \<Rightarrow> (string \<times> string) list \<Rightarrow> (string \<times> combined) list \<Rightarrow> unmatched \<Rightarrow>
     py_error + (string \<times> combined) list" where
  "second_chance course_credits subject_names combined_data subj =
     (case special_pass special_cases course_credits subject_names subj combined_data of
        Inl e \<Rightarrow> Inl e
      | Inr combined_data \<Rightarrow>
         (case extract_core_code_parts (u_code subj) of (year, dept, sem, type_code) \<Rightarrow>
            (case sem of
               None \<Rightarrow> Inr combined_data
             | Some sem \<Rightarrow>
                 if sem \<noteq> []
                 then sem_type_pass (map fst course_credits) course_credits subject_names subj
                        sem type_code combined_data
                 else Inr combined_data)))"

fun second_chance_loop ::
  "(string \<times> real) list \<Rightarrow> (string \<times> string) list \<Rightarrow> unmatched list \<Rightarrow>
     (string \<times> combined) list \<Rightarrow> py_error + (string \<times> combined) list" where
  "second_chance_loop course_credits subject_names [] combined_data = Inr combined_data"
| "second_chance_loop course_credits subject_names (subj # rest) combined_data =
     (case second_chance course_credits subject_names combined_data subj of
        Inl e \<Rightarrow> Inl e
      | Inr combined_data \<Rightarrow> second_chance_loop course_credits subject_names rest combined_data)"


section \<open>Course parser\<close>

text \<open>
  \<open>float(s)\<close> for a text \<open>s\<close> of the form \<open>\d+(?:\.\d+)?\<close>, the only form the program
  converts: the decimal number, rounded to the nearest float.
\<close>

definition digits_value :: "string \<Rightarrow> nat" where
  "digits_value s = foldl (\<lambda>n c. 10 * n + (of_char c - 48)) 0 s"

definition decimal_value :: "string \<Rightarrow> real" where
  "decimal_value s =
     (let whole = takeWhile is_digit s; fraction = drop 1 (dropWhile is_digit s)
      in real (digits_value whole) + real (digits_value fraction) / 10 ^ length fraction)"

definition float_of :: "string \<Rightarrow> real" where
  "float_of s = fl (decimal_value s)"

text \<open>
  The patterns of \<open>parse_course_data\<close>.  \<open>course_code\<close> is the group
  \<open>(2\d[A-Za-z0-9]{6,10})\<close> and \<open>credit_group\<close> the group \<open>(\d+(?:\.\d+)?)\<close>.
\<close>

definition course_code :: rx where
  "course_code = Grp [one (\<lambda>c. c = CHR ''2''), one is_digit, Cls is_alnum 6 (Some 10) True]"

definition credit_group :: rx where
  "credit_group = Grp [plus is_digit, Alt [[one (\<lambda>c. c = CHR ''.''), plus is_digit], []]]"

text \<open>
  \<open>\d+\s+(.+?)\s+(2\d[A-Za-z0-9]{6,10})\s+\w+\s+\d+\s+(\d+(?:\.\d+)?)\<close>,
  \<open>(.+?)\s+(2\d[A-Za-z0-9]{6,10})\s+\w+\s+\d+\s+(\d+(?:\.\d+)?)\<close> and
  \<open>(.+?)\s+(2\d[A-Za-z0-9]{6,10})\s+.*?(\d+(?:\.\d+)?)$\<close>, in the order they are tried.
\<close>

definition course_patterns :: "rx list list" where
  "course_patterns =
     [[plus is_digit, plus is_space, Grp [Cls dot 1 None False], plus is_space, course_code,
       plus is_space, plus is_word, plus is_space, plus is_digit, plus is_space, credit_group],
      [Grp [Cls dot 1 None False], plus is_space, course_code,
       plus is_space, plus is_word, plus is_space, plus is_digit, plus is_space, credit_group],
      [Grp [Cls dot 1 None False], plus is_space, course_code,
       plus is_space, Cls dot 0 None False, credit_group, Eol]]"

text \<open>
  The special subject patterns, searched with \<open>re.IGNORECASE\<close>:
  \<open>(Biology\s+for\s+Engineers)\s+(2\d[A-Za-z0-9]{6,10})\<close>,
  \<open>(Environmental\s+Studies)\s+(2\d[A-Za-z0-9]{6,10})\<close>,
  \<open>(Constitution\s+of\s+India)\s+(2\d[A-Za-z0-9]{6,10})\<close> and
  \<open>(Mathematics)\s+(2\d[A-Za-z0-9]{6,10})\<close>.
\<close>

definition special_course_patterns :: "rx list list" where
  "special_course_patterns =
     [[Grp (lit_ci ''Biology'' @ [plus is_space] @ lit_ci ''for'' @ [plus is_space] @
            lit_ci ''Engineers''), plus is_space, course_code],
      [Grp (lit_ci ''Environmental'' @ [plus is_space] @ lit_ci ''Studies''), plus is_space,
       course_code],
      [Grp (lit_ci ''Constitution'' @ [plus is_space] @ lit_ci ''of'' @ [plus is_space] @
            lit_ci ''India''), plus is_space, course_code],
      [Grp (lit_ci ''Mathematics''), plus is_space, course_code]]"

text \<open>\<open>(\d+(?:\.\d+)?)$\<close>\<close>

definition pat_credit_end :: "rx list" where
  "pat_credit_end = [credit_group, Eol]"

text \<open>
  The two indexes the parser builds: \<open>course_credits\<close> and \<open>subject_names\<close>.  A record
  is entered under the subject code and under its normalised form.
\<close>

type_synonym course_index = "(string \<times> real) list \<times> (string \<times> string) list"

definition enter_course :: "course_index \<Rightarrow> string \<Rightarrow> string \<Rightarrow> real \<Rightarrow> course_index" where
  "enter_course idx subject_name subject_code credit =
     (case idx of (course_credits, subject_names) \<Rightarrow>
        let normalized_code = normalize_subject_code subject_code
        in (dict_set (dict_set course_credits subject_code credit) normalized_code credit,
            dict_set (dict_set subject_names subject_code subject_name) normalized_code
              subject_name))"

text \<open>The first pattern of the list that matches the line.\<close>

fun first_match :: "rx list list \<Rightarrow> string \<Rightarrow> rmatch option" where
  "first_match [] line = None"
| "first_match (pattern # patterns) line =
     (case re_search pattern line of
        Some m \<Rightarrow> Some m
      | None \<Rightarrow> first_match patterns line)"

text \<open>The first loop: one line, with the flag \<open>in_course_section\<close>.\<close>

definition course_line_step :: "bool \<times> course_index \<Rightarrow> string \<Rightarrow> bool \<times> course_index" where
  "course_line_step st line =
     (case st of (in_course_section, idx) \<Rightarrow>
        if contains ''Course Details'' line \<or> contains ''Course Title'' line then (True, idx)
        else if in_course_section \<and> contains ''Total Credits'' line then (False, idx)
        else if in_course_section
        then (case first_match course_patterns line of
                None \<Rightarrow> (in_course_section, idx)
              | Some m \<Rightarrow>
                  (in_course_section,
                   enter_course idx (strip (group m 1)) (strip (group m 2))
                     (float_of (strip (group m 3)))))
        else (in_course_section, idx))"

text \<open>The second loop: the special subject patterns, each over all the lines.\<close>

definition special_course_step :: "rx list \<Rightarrow> course_index \<Rightarrow> string \<Rightarrow> course_index" where
  "special_course_step pattern idx line =
     (case re_search pattern line of
        None \<Rightarrow> idx
      | Some special_match \<Rightarrow>
          (case re_search pat_credit_end line of
             None \<Rightarrow> idx
           | Some credit_match \<Rightarrow>
               enter_course idx (strip (group special_match 1)) (strip (group special_match 2))
                 (float_of (strip (group credit_match 1)))))"

definition special_course_scan :: "string list \<Rightarrow> course_index \<Rightarrow> rx list \<Rightarrow> course_index" where
  "special_course_scan lines idx pattern = foldl (special_course_step pattern) idx lines"

text \<open>The records accepted from the text: the indexes before the aliases are generated.\<close>

definition accepted_courses :: "string \<Rightarrow> course_index" where
  "accepted_courses course_text =
     (let lines = split_on (CHR 0x0A) course_text;
          idx = snd (foldl course_line_step (False, ([], [])) lines)
      in foldl (special_course_scan lines) idx special_course_patterns)"

text \<open>
  The alternative department codes.  For one code, with the credit and the name read
  before the inner loop, every other department code \<open>alt_dept\<close> gives the entries
  \<open>code.replace(dept, alt_dept)\<close> and its normalised form.
\<close>

definition alias_step :: "string \<Rightarrow> string \<Rightarrow> real \<Rightarrow> string \<Rightarrow> course_index \<Rightarrow> string \<Rightarrow> course_index" where
  "alias_step code dept credit name idx alt_dept =
     (case idx of (course_credits, subject_names) \<Rightarrow>
        if alt_dept \<noteq> dept
        then (let alt_code = replace_all dept alt_dept code;
                  alt_normalized = normalize_subject_code alt_code
              in (dict_set (dict_set course_credits alt_code credit) alt_normalized credit,
                  dict_set (dict_set subject_names alt_code name) alt_normalized name))
        else idx)"

text \<open>
  The loop over \<open>list(course_credits.keys())\<close>, the keys present when the loop starts.
\<close>

fun alias_loop :: "string list \<Rightarrow> course_index \<Rightarrow> py_error + course_index" where
  "alias_loop [] idx = Inr idx"
| "alias_loop (code # codes) (course_credits, subject_names) =
     (case extract_core_code_parts code of (year, dept, sem, type_code) \<Rightarrow>
        if truthy year \<and> truthy dept \<and> truthy sem
        then (case dict_at course_credits code of
                Inl e \<Rightarrow> Inl e
              | Inr credit \<Rightarrow>
                  alias_loop codes
                    (foldl (alias_step code (case dept of Some d \<Rightarrow> d | None \<Rightarrow> [])
                              credit (dict_get subject_names code []))
                       (course_credits, subject_names) DEPARTMENT_CODES))
        else alias_loop codes (course_credits, subject_names))"

text \<open>The index from names to codes: the later of two codes with the same name wins.\<close>

definition name_map_step :: "(string \<times> string) list \<Rightarrow> string \<times> string \<Rightarrow> (string \<times> string) list" where
  "name_map_step subject_name_map item =
     (case item of (code, name) \<Rightarrow>
        dict_set subject_name_map (replace_all '' '' [] (lower name)) code)"

definition parse_course_data ::
  "string \<Rightarrow> py_error + ((string \<times> real) list \<times> (string \<times> string) list \<times> (string \<times> string) list)" where
  "parse_course_data course_text =
     (case accepted_courses course_text of (course_credits, subject_names) \<Rightarrow>
        (case alias_loop (map fst course_credits) (course_credits, subject_names) of
           Inl e \<Rightarrow> Inl e
         | Inr (course_credits, subject_names) \<Rightarrow>
             Inr (course_credits, subject_names, foldl name_map_step [] subject_names)))"

section \<open>Aggregator\<close>

record point =
  p_code :: string
  p_name :: string
  p_credit :: real
  p_grade :: string
  p_grade_point :: int
  p_weighted_point :: real

type_synonym sgpa_acc = "real \<times> real \<times> point list"

text \<open>One pass of the loop of \<open>calculate_sgpa\<close> over the items of \<open>subjects\<close>.\<close>

definition sgpa_step :: "sgpa_acc \<Rightarrow> string \<times> combined \<Rightarrow> sgpa_acc" where
  "sgpa_step acc item =
     (case acc of (total_credits, weighted_sum, subject_points) \<Rightarrow>
      case item of (subject_code, data) \<Rightarrow>
        (case c_credit data of
           None \<Rightarrow> acc
         | Some credit \<Rightarrow>
             if credit = 0 then acc
             else
               let grade = c_grade data;
                   grade_point = grade_points_get grade;
                   weighted_point = fmul credit (of_int grade_point)
               in (fadd total_credits credit,
                   fadd weighted_sum weighted_point,
                   subject_points @
                     [\<lparr>p_code = subject_code, p_name = c_name data, p_credit = credit,
                       p_grade = grade, p_grade_point = grade_point,
                       p_weighted_point = weighted_point\<rparr>])))"

definition calculate_sgpa ::
  "(string \<times> combined) list \<Rightarrow> py_error + (real \<times> point list \<times> real \<times> real)" where
  "calculate_sgpa subjects =
     (case foldl sgpa_step (0, 0, []) subjects of
        (total_credits, weighted_sum, subject_points) \<Rightarrow>
          if total_credits \<le> 0 then Inr (0, subject_points, total_credits, weighted_sum)
          else
            (case fdiv weighted_sum total_credits of
               Inl e \<Rightarrow> Inl e
             | Inr sgpa \<Rightarrow> Inr (py_round sgpa 2, subject_points, total_credits, weighted_sum)))"

text \<open>
  \<open>calculate_cgpa\<close> mutates the dictionaries it is given: each semester's record is an
  object in a store, and \<open>semester_data\<close> maps a semester id to the address of its
  record.  A record maps its keys to values; the numbers are the values the function
  reads and writes.
\<close>

datatype 'a pyval = Num real | Other 'a

type_synonym addr = nat
type_synonym 'a semrec = "string \<rightharpoonup> 'a pyval"
type_synonym 'a store = "addr \<Rightarrow> 'a semrec"

definition get_num :: "'a semrec \<Rightarrow> string \<Rightarrow> py_error + real" where
  "get_num d k =
     (case d k of
        None \<Rightarrow> Inl KeyError
      | Some (Num x) \<Rightarrow> Inr x
      | Some (Other v) \<Rightarrow> Inl TypeError)"

text \<open>\<open>round(p / c, 2) if c > 0 else 0\<close>.\<close>

definition running_cgpa :: "real \<Rightarrow> real \<Rightarrow> py_error + real" where
  "running_cgpa cumulative_points cumulative_credits =
     (if 0 < cumulative_credits
      then (case fdiv cumulative_points cumulative_credits of
              Inl e \<Rightarrow> Inl e
            | Inr q \<Rightarrow> Inr (py_round q 2))
      else Inr 0)"

type_synonym 'a cgpa_state = "real \<times> real \<times> (int \<times> real) list \<times> 'a store"

fun cgpa_loop ::
  "(int \<times> addr) list \<Rightarrow> (int \<times> addr) list \<Rightarrow> 'a cgpa_state \<Rightarrow> py_error + 'a cgpa_state" where
  "cgpa_loop semester_data [] st = Inr st"
| "cgpa_loop semester_data ((sem_id, data) # rest)
       (cumulative_credits, cumulative_points, semester_cgpa, h) =
     (case get_num (h data) ''total_credits'' of
        Inl e \<Rightarrow> Inl e
      | Inr tc \<Rightarrow>
     (case get_num (h data) ''total_points'' of
        Inl e \<Rightarrow> Inl e
      | Inr tp \<Rightarrow>
          let cumulative_credits = fadd cumulative_credits tc;
              cumulative_points = fadd cumulative_points tp
          in (case running_cgpa cumulative_points cumulative_credits of
                Inl e \<Rightarrow> Inl e
              | Inr cgpa \<Rightarrow>
                 (case map_of semester_data sem_id of
                    None \<Rightarrow> Inl KeyError
                  | Some a \<Rightarrow>
                      cgpa_loop semester_data rest
                        (cumulative_credits, cumulative_points,
                         dict_set semester_cgpa sem_id cgpa,
                         h(a := (h a)(''cgpa'' \<mapsto> Num cgpa)))))))"

record summary =
  sm_total_credits :: real
  sm_total_points :: real
  sm_max_possible_points :: real
  sm_overall_percentage :: real

definition overall_percentage_of :: "real \<Rightarrow> real \<Rightarrow> py_error + real" where
  "overall_percentage_of cumulative_points cumulative_credits =
     (if 0 < cumulative_credits
      then (case fdiv cumulative_points (fmul cumulative_credits 10) of
              Inl e \<Rightarrow> Inl e
            | Inr q \<Rightarrow> Inr (py_round (fmul q 100) 2))
      else Inr 0)"

definition calculate_cgpa ::
  "'a store \<Rightarrow> (int \<times> addr) list \<Rightarrow>
     py_error + (real \<times> (int \<times> addr) list \<times> summary \<times> 'a store)" where
  "calculate_cgpa h semester_data =
     (let sorted_semesters = sort_key fst semester_data
      in case cgpa_loop semester_data sorted_semesters (0, 0, [], h) of
           Inl e \<Rightarrow> Inl e
         | Inr (cumulative_credits, cumulative_points, semester_cgpa, h') \<Rightarrow>
            (case running_cgpa cumulative_points cumulative_credits of
               Inl e \<Rightarrow> Inl e
             | Inr overall_cgpa \<Rightarrow>
            (case overall_percentage_of cumulative_points cumulative_credits of
               Inl e \<Rightarrow> Inl e
             | Inr pct \<Rightarrow>
                 Inr (overall_cgpa, semester_data,
                      \<lparr>sm_total_credits = py_round cumulative_credits 1,
                       sm_total_points = py_round cumulative_points 1,
                       sm_max_possible_points = py_round (fmul cumulative_credits 10) 1,
                       sm_overall_percentage = pct\<rparr>,
                      h'))))"

section \<open>Auxiliary notions for the proofs\<close>

text \<open>
  The first result of a list of matcher states: the text left after the match, and the
  groups captured.
\<close>

definition first_rest :: "mstate list \<Rightarrow> string option" where
  "first_rest xs = (case xs of [] \<Rightarrow> None | st # _ \<Rightarrow> Some (snd (snd st)))"

definition first_groups :: "mstate list \<Rightarrow> string list option" where
  "first_groups xs = (case xs of [] \<Rightarrow> None | st # _ \<Rightarrow> Some (fst st))"

text \<open>
  What the two code patterns match at the start of a string, written with
  \<open>takeWhile\<close> and \<open>dropWhile\<close>; the lemmas below prove that the backtracking matcher
  computes exactly this.
\<close>

definition norm_end :: "string \<Rightarrow> string option" where
  "norm_end s =
     (let s1 = dropWhile is_digit s; s2 = dropWhile is_alpha s1; s3 = dropWhile is_digit s2
      in if takeWhile is_digit s \<noteq> [] \<and> takeWhile is_alpha s1 \<noteq> [] \<and>
            takeWhile is_digit s2 \<noteq> [] \<and> takeWhile is_alpha s3 \<noteq> [] \<and>
            2 \<le> length (takeWhile is_alnum s3)
         then Some (dropWhile is_alnum s3) else None)"

definition core_groups :: "string \<Rightarrow> string list option" where
  "core_groups s =
     (let s1 = dropWhile is_digit s; s2 = dropWhile is_alpha s1; s3 = dropWhile is_digit s2
      in if takeWhile is_digit s \<noteq> [] \<and> takeWhile is_alpha s1 \<noteq> [] \<and>
            takeWhile is_digit s2 \<noteq> [] \<and> takeWhile is_alpha s3 \<noteq> []
         then Some [takeWhile is_digit s, takeWhile is_alpha s1, takeWhile is_digit s2,
                    takeWhile is_alpha s3]
         else None)"

fun norm_find :: "string \<Rightarrow> string option" where
  "norm_find [] = None"
| "norm_find (c # cs) =
     (case norm_end (c # cs) of
        Some r \<Rightarrow> Some (take (length (c # cs) - length r) (c # cs))
      | None \<Rightarrow> norm_find cs)"

fun core_find :: "string \<Rightarrow> string list option" where
  "core_find [] = None"
| "core_find (c # cs) = (case core_groups (c # cs) of Some gs \<Rightarrow> Some gs | None \<Rightarrow> core_find cs)"

definition clean :: "string \<Rightarrow> string" where
  "clean s = replace_all '' '' [] (strip s)"

text \<open>
  The subjects \<open>calculate_sgpa\<close> includes (those with a credit that is present and not
  zero), and the point record it builds for one of them.
\<close>

definition included :: "string \<times> combined \<Rightarrow> bool" where
  "included item = (case c_credit (snd item) of None \<Rightarrow> False | Some credit \<Rightarrow> credit \<noteq> 0)"

definition credit_of :: "string \<times> combined \<Rightarrow> real" where
  "credit_of item = (case c_credit (snd item) of None \<Rightarrow> 0 | Some credit \<Rightarrow> credit)"

definition weighted_of :: "string \<times> combined \<Rightarrow> real" where
  "weighted_of item = fmul (credit_of item) (of_int (grade_points_get (c_grade (snd item))))"

definition point_of :: "string \<times> combined \<Rightarrow> point" where
  "point_of item =
     \<lparr>p_code = fst item, p_name = c_name (snd item), p_credit = credit_of item,
      p_grade = c_grade (snd item), p_grade_point = grade_points_get (c_grade (snd item)),
      p_weighted_point = weighted_of item\<rparr>"

text \<open>Sample subjects: credits 4, 3, a zero credit and a missing credit.\<close>

definition example_subjects :: "(string \<times> combined) list" where
  "example_subjects =
     [(''23CS3CSFM'', \<lparr>c_name = ''Fundamentals of Management'', c_credit = Some 4, c_grade = ''A'',
                       c_grade_point = 8, c_weighted_point = 32\<rparr>),
      (''23CS3PCDBM'', \<lparr>c_name = ''Database Management'', c_credit = Some 3, c_grade = ''O'',
                        c_grade_point = 10, c_weighted_point = 30\<rparr>),
      (''23CS3AEPRJ'', \<lparr>c_name = ''Project'', c_credit = Some 0, c_grade = ''A+'',
                        c_grade_point = 9, c_weighted_point = 0\<rparr>),
      (''23CS3NCMC1'', \<lparr>c_name = ''Seminar'', c_credit = None, c_grade = ''B'',
                        c_grade_point = 6, c_weighted_point = 0\<rparr>)]"

text \<open>The three numbers of the result of \<open>calculate_sgpa\<close> other than the list.\<close>

definition sgpa_totals ::
  "py_error + (real \<times> point list \<times> real \<times> real) \<Rightarrow> (real \<times> real \<times> real) option" where
  "sgpa_totals r = (case r of Inl e \<Rightarrow> None | Inr (sgpa, sp, tc, ws) \<Rightarrow> Some (sgpa, tc, ws))"

text \<open>A credit that is a non-negative multiple of \<open>1 / 2^j\<close>.\<close>

definition dyadic_credit :: "nat \<Rightarrow> real \<Rightarrow> bool" where
  "dyadic_credit j c = (0 \<le> c \<and> of_int \<lfloor>c * 2 ^ j\<rfloor> = c * 2 ^ j)"

text \<open>The weighted point of a subject in exact arithmetic.\<close>

definition exact_weighted :: "string \<times> combined \<Rightarrow> real" where
  "exact_weighted item = credit_of item * of_int (grade_points_get (c_grade (snd item)))"

text \<open>
  Sample subjects whose credits are the floats \<open>0.1\<close>, \<open>0.2\<close> and \<open>0.3\<close> (written as
  the exact values of these floats), and sample subjects with credits 4, 1.5 and 0.5.
\<close>

definition tenths_subjects :: "(string \<times> combined) list" where
  "tenths_subjects =
     [(''23CS3AEC01'',
       \<lparr>c_name = ''Seminar One'', c_credit = Some (3602879701896397 / 36028797018963968),
        c_grade = ''A'', c_grade_point = 8,
        c_weighted_point = 3602879701896397 / 4503599627370496\<rparr>),
      (''23CS3AEC02'',
       \<lparr>c_name = ''Seminar Two'', c_credit = Some (3602879701896397 / 18014398509481984),
        c_grade = ''A'', c_grade_point = 8,
        c_weighted_point = 3602879701896397 / 2251799813685248\<rparr>),
      (''23CS3AEC03'',
       \<lparr>c_name = ''Seminar Three'', c_credit = Some (5404319552844595 / 18014398509481984),
        c_grade = ''A'', c_grade_point = 8,
        c_weighted_point = 5404319552844595 / 2251799813685248\<rparr>)]"

definition halves_subjects :: "(string \<times> combined) list" where
  "halves_subjects =
     [(''23CS3CSFM'', \<lparr>c_name = ''Fundamentals of Management'', c_credit = Some 4, c_grade = ''A'',
                       c_grade_point = 8, c_weighted_point = 32\<rparr>),
      (''23CS3PCLAB'', \<lparr>c_name = ''Laboratory'', c_credit = Some (3 / 2), c_grade = ''O'',
                        c_grade_point = 10, c_weighted_point = 15\<rparr>),
      (''23CS3AEC01'', \<lparr>c_name = ''Seminar'', c_credit = Some (1 / 2), c_grade = ''B+'',
                        c_grade_point = 7, c_weighted_point = 7 / 2\<rparr>)]"

text \<open>
  Notions for \<open>calculate_cgpa\<close>: the number a record holds under a key, whether a
  record holds numbers under \<open>total_credits\<close> and \<open>total_points\<close>, the float sum of a
  field over the first \<open>n\<close> semesters of a list, and the running average computed from
  cumulative points and credits.
\<close>

definition num_field :: "'a store \<Rightarrow> string \<Rightarrow> addr \<Rightarrow> real" where
  "num_field h k a = (case h a k of Some (Num x) \<Rightarrow> x | _ \<Rightarrow> 0)"

definition is_num :: "'a pyval option \<Rightarrow> bool" where
  "is_num v = (case v of Some (Num x) \<Rightarrow> True | _ \<Rightarrow> False)"

definition numeric_record :: "'a store \<Rightarrow> addr \<Rightarrow> bool" where
  "numeric_record h a = (is_num (h a ''total_credits'') \<and> is_num (h a ''total_points''))"

definition cumulative :: "'a store \<Rightarrow> string \<Rightarrow> (int \<times> addr) list \<Rightarrow> nat \<Rightarrow> real" where
  "cumulative h k items n = foldl fadd 0 (map (\<lambda>item. num_field h k (snd item)) (take n items))"

definition cgpa_value :: "real \<Rightarrow> real \<Rightarrow> real" where
  "cgpa_value p c = (if 0 < c then py_round (fl (p / c)) 2 else 0)"

text \<open>
  Sample semesters: the records of semesters 1 and 2 at the addresses 10 and 11, entered
  in the dictionary in the order 2, 1.
\<close>

definition example_store :: "string store" where
  "example_store =
     (\<lambda>a. Map.empty)
       (10 := [''total_credits'' \<mapsto> Num 20, ''total_points'' \<mapsto> Num 160,
               ''semester'' \<mapsto> Other ''1''],
        11 := [''total_credits'' \<mapsto> Num 22, ''total_points'' \<mapsto> Num 198,
               ''semester'' \<mapsto> Other ''2''])"

definition example_semesters :: "(int \<times> addr) list" where
  "example_semesters = [(2, 11), (1, 10)]"

text \<open>
  The fuzzy stage as the specification words it: the candidates are the course codes
  that contain the semester; the similarity to the normalised result code is maximised
  over them; the first candidate that attains the maximum is the result when the maximum
  exceeds one half, and there is no result otherwise.
\<close>

definition candidates :: "string \<Rightarrow> string list \<Rightarrow> string list" where
  "candidates sem codes = filter (contains sem) codes"

definition fuzzy_spec ::
  "(string \<Rightarrow> string \<Rightarrow> real) \<Rightarrow> string \<Rightarrow> string \<Rightarrow> string list \<Rightarrow> string option" where
  "fuzzy_spec ratio sem normalized_code codes =
     (let cands = candidates sem codes
      in if cands = [] then None
         else let m = Max (set (map (ratio normalized_code) cands))
              in if 1 / 2 < m then find (\<lambda>code. ratio normalized_code code = m) cands
                 else None)"

text \<open>
  Sample subjects with a negative credit: credits 2 and -2, whose total is zero, and a
  single credit -2.
\<close>

definition cancelling_subjects :: "(string \<times> combined) list" where
  "cancelling_subjects =
     [(''23CS3CSFM'', \<lparr>c_name = ''Fundamentals of Management'', c_credit = Some 2, c_grade = ''A'',
                       c_grade_point = 8, c_weighted_point = 16\<rparr>),
      (''23CS3PCDBM'', \<lparr>c_name = ''Database Management'', c_credit = Some (- 2), c_grade = ''B'',
                        c_grade_point = 6, c_weighted_point = - 12\<rparr>)]"

definition negative_subjects :: "(string \<times> combined) list" where
  "negative_subjects =
     [(''23CS3CSFM'', \<lparr>c_name = ''Fundamentals of Management'', c_credit = Some (- 2), c_grade = ''A'',
                       c_grade_point = 8, c_weighted_point = - 16\<rparr>)]"

text \<open>
  The values \<open>calculate_cgpa\<close> is expected to produce, in terms of the cumulative sums:
  the overall percentage; the running average after the first \<open>n\<close> semesters; the store
  after the first \<open>n\<close> semesters, in which the record of each of these semesters in turn
  has received its running average under \<open>cgpa\<close>; and the dictionary \<open>semester_cgpa\<close>
  after the first \<open>n\<close> semesters.
\<close>

definition percentage_value :: "real \<Rightarrow> real \<Rightarrow> real" where
  "percentage_value p c = (if 0 < c then py_round (fmul (fl (p / fmul c 10)) 100) 2 else 0)"

definition running_value :: "'a store \<Rightarrow> (int \<times> addr) list \<Rightarrow> nat \<Rightarrow> real" where
  "running_value h items n =
     cgpa_value (cumulative h ''total_points'' items n) (cumulative h ''total_credits'' items n)"

fun store_after :: "'a store \<Rightarrow> (int \<times> addr) list \<Rightarrow> nat \<Rightarrow> 'a store" where
  "store_after h items 0 = h"
| "store_after h items (Suc n) =
     (store_after h items n)
       (snd (items ! n) :=
          (store_after h items n (snd (items ! n)))(''cgpa'' \<mapsto> Num (running_value h items (Suc n))))"

fun cgpa_after :: "'a store \<Rightarrow> (int \<times> addr) list \<Rightarrow> nat \<Rightarrow> (int \<times> real) list" where
  "cgpa_after h items 0 = []"
| "cgpa_after h items (Suc n) =
     dict_set (cgpa_after h items n) (fst (items ! n)) (running_value h items (Suc n))"

text \<open>
  Sample semesters of which the first and the third share one record object (address 10).
\<close>

definition shared_store :: "string store" where
  "shared_store =
     (\<lambda>a. Map.empty)
       (10 := [''total_credits'' \<mapsto> Num 20, ''total_points'' \<mapsto> Num 160],
        11 := [''total_credits'' \<mapsto> Num 20, ''total_points'' \<mapsto> Num 200])"

definition shared_semesters :: "(int \<times> addr) list" where
  "shared_semesters = [(1, 10), (2, 11), (3, 10)]"






section \<open>Lemmas about the matcher\<close>

lemma digit_not_alpha: "is_digit c \<Longrightarrow> \<not> is_alpha c"
  by (auto simp: is_digit_def is_alpha_def Let_def)

lemma rx_seq_single: "rx_seq [r] st = rx_one r st"
proof -
  have "rx_seq [] = (\<lambda>st. [st])" by (rule ext) (simp add: rx_seq.simps)
  then show ?thesis by (simp add: rx_seq.simps concat_map_singleton)
qed

lemma rx_one_grp_plus:
  "rx_one (Grp [plus C]) (gs, prev, s) =
     map (\<lambda>k. (gs @ [take k s], Some (s ! (k - Suc 0)), drop k s))
         (rev [Suc 0 ..< Suc (length (takeWhile C s))])"
proof -
  have le: "length (takeWhile C s) \<le> length s"
    by (rule length_takeWhile_le)
  have "rx_one (Grp [plus C]) (gs, prev, s) =
     map (\<lambda>k. case advance (gs, prev, s) k of (gs', prev', s') \<Rightarrow>
             (gs' @ [take (length s - length s') s], prev', s'))
         (rev [Suc 0 ..< Suc (length (takeWhile C s))])"
    by (simp only: rx_one.simps rx_seq_single Let_def option.case lens_def if_True map_map comp_def)
  also have "\<dots> = map (\<lambda>k. (gs @ [take k s], Some (s ! (k - Suc 0)), drop k s))
         (rev [Suc 0 ..< Suc (length (takeWhile C s))])"
    by (rule map_cong) (use le in auto)
  finally show ?thesis .
qed

lemma concat_only_top:
  assumes "\<And>k. Suc 0 \<le> k \<Longrightarrow> k < n \<Longrightarrow> f k = []"
  shows "concat (map f (rev [Suc 0 ..< Suc n])) = (if n = 0 then [] else f n)"
proof (cases n)
  case 0
  then show ?thesis by simp
next
  case (Suc m)
  have "concat (map f (rev [Suc 0 ..< Suc m])) = []"
    using assms Suc by (auto simp del: upt_Suc)
  then show ?thesis using Suc by simp
qed

lemma rx_seq_fail_first:
  assumes "t = [] \<or> \<not> C (hd t)"
  shows "rx_seq (Grp [plus C] # rs) (g, p, t) = []"
proof -
  have "takeWhile C t = []"
    using assms by (cases t) auto
  then show ?thesis
    by (simp add: rx_seq.simps rx_one.simps lens_def)
qed

lemma rx_seq_step:
  assumes "\<And>g p t. t \<noteq> [] \<Longrightarrow> C (hd t) \<Longrightarrow> rx_seq rs (g, p, t) = []"
  shows "rx_seq (Grp [plus C] # rs) (gs, prev, s) =
           (if takeWhile C s = [] then []
            else rx_seq rs (gs @ [takeWhile C s], Some (last (takeWhile C s)), dropWhile C s))"
proof -
  let ?n = "length (takeWhile C s)"
  let ?f = "\<lambda>k. rx_seq rs (gs @ [take k s], Some (s ! (k - Suc 0)), drop k s)"
  have small: "?f k = []" if "Suc 0 \<le> k" "k < ?n" for k
  proof -
    have "k < length s" using that length_takeWhile_le [of C s] by simp
    then have ne: "drop k s \<noteq> []" by simp
    have "hd (drop k s) = s ! k" using \<open>k < length s\<close> by (simp add: hd_drop_conv_nth)
    moreover have "s ! k = takeWhile C s ! k" using that by (simp add: takeWhile_nth)
    moreover have "C (takeWhile C s ! k)" using that nth_mem set_takeWhileD by metis
    ultimately show ?thesis using assms ne by simp
  qed
  have "rx_seq (Grp [plus C] # rs) (gs, prev, s) = concat (map ?f (rev [Suc 0 ..< Suc ?n]))"
    by (simp only: rx_seq.simps rx_one_grp_plus map_map comp_def)
  also have "\<dots> = (if ?n = 0 then [] else ?f ?n)"
    by (rule concat_only_top) (rule small)
  finally have eq: "rx_seq (Grp [plus C] # rs) (gs, prev, s) = (if ?n = 0 then [] else ?f ?n)" .
  show ?thesis
  proof (cases "takeWhile C s = []")
    case True
    then show ?thesis using eq by simp
  next
    case False
    then have pos: "0 < ?n" by simp
    have t: "take ?n s = takeWhile C s" by (simp add: takeWhile_eq_take [symmetric])
    have d: "drop ?n s = dropWhile C s" by (simp add: dropWhile_eq_drop [symmetric])
    have "last (takeWhile C s) = takeWhile C s ! (?n - 1)"
      using False by (simp add: last_conv_nth)
    also have "\<dots> = s ! (?n - 1)" using pos by (simp add: takeWhile_nth)
    finally have l: "s ! (?n - 1) = last (takeWhile C s)" by simp
    show ?thesis using eq False t d l by simp
  qed
qed

lemma alpha_not_digit: "is_alpha c \<Longrightarrow> \<not> is_digit c"
  by (auto simp: is_digit_def is_alpha_def Let_def)

lemma first_rest_append:
  "first_rest (xs @ ys) = (if xs = [] then first_rest ys else first_rest xs)"
  by (cases xs) (auto simp: first_rest_def)

lemma takeWhile_mono_length:
  assumes "\<And>x. P x \<Longrightarrow> Q x"
  shows "length (takeWhile P s) \<le> length (takeWhile Q s)"
  using assms by (induction s) auto

lemma takeWhile_dropWhile_nil: "takeWhile P (dropWhile P s) = []"
  by (induction s) auto

lemma takeWhile_drop_run:
  assumes "k \<le> length (takeWhile P s)"
  shows "takeWhile P (drop k s) = drop k (takeWhile P s)"
proof -
  have "drop k (takeWhile P s @ dropWhile P s) = drop k (takeWhile P s) @ dropWhile P s"
    by (subst drop_append) (use assms in simp)
  then have "drop k s = drop k (takeWhile P s) @ dropWhile P s" by simp
  then have "takeWhile P (drop k s) = takeWhile P (drop k (takeWhile P s) @ dropWhile P s)"
    by simp
  also have "\<dots> = drop k (takeWhile P s) @ takeWhile P (dropWhile P s)"
    by (rule takeWhile_append2) (meson in_set_dropD set_takeWhileD)
  finally show ?thesis by (simp add: takeWhile_dropWhile_nil)
qed

lemma first_rest_grp_plus:
  "first_rest (rx_seq [Grp [plus C]] (gs, prev, s)) =
     (if takeWhile C s = [] then None else Some (dropWhile C s))"
proof (cases "takeWhile C s = []")
  case True
  then show ?thesis by (simp add: rx_seq_single rx_one_grp_plus first_rest_def)
next
  case False
  then obtain m where m: "length (takeWhile C s) = Suc m"
    by (cases "length (takeWhile C s)") auto
  have "drop (Suc m) s = dropWhile C s"
    using m by (metis dropWhile_eq_drop)
  then show ?thesis using False m
    by (simp add: rx_seq_single rx_one_grp_plus first_rest_def)
qed

lemma tail_letters_alnum:
  "first_rest (rx_seq [Grp [plus is_alpha], Grp [plus is_alnum]] (gs, prev, s)) =
     (if takeWhile is_alpha s \<noteq> [] \<and> 2 \<le> length (takeWhile is_alnum s)
      then Some (dropWhile is_alnum s) else None)"
proof -
  let ?n4 = "length (takeWhile is_alpha s)"
  let ?nA = "length (takeWhile is_alnum s)"
  let ?f = "\<lambda>k. rx_seq [Grp [plus is_alnum]] (gs @ [take k s], Some (s ! (k - Suc 0)), drop k s)"
  have le: "?n4 \<le> ?nA"
    by (rule takeWhile_mono_length) (simp add: is_alnum_def)
  have whole: "rx_seq [Grp [plus is_alpha], Grp [plus is_alnum]] (gs, prev, s) =
      concat (map ?f (rev [Suc 0 ..< Suc ?n4]))"
    by (simp only: rx_seq.simps(2) [of "Grp [plus is_alpha]"] rx_one_grp_plus map_map comp_def)
  have fr: "first_rest (?f k) =
      (if ?nA = k then None else Some (dropWhile is_alnum s))" if "k \<le> ?nA" for k
  proof -
    have tw: "takeWhile is_alnum (drop k s) = drop k (takeWhile is_alnum s)"
      using that by (rule takeWhile_drop_run)
    have "dropWhile is_alnum (drop k s) = drop (?nA - k) (drop k s)"
      using tw by (metis dropWhile_eq_drop length_drop)
    also have "\<dots> = drop ?nA s" using that by simp
    also have "\<dots> = dropWhile is_alnum s" by (metis dropWhile_eq_drop)
    finally have dw: "dropWhile is_alnum (drop k s) = dropWhile is_alnum s" .
    show ?thesis
      using that tw dw by (auto simp: first_rest_grp_plus)
  qed
  have fe: "?f k = []" if "?nA = k" for k
  proof -
    have "takeWhile is_alnum (drop k s) = drop k (takeWhile is_alnum s)"
      using that by (intro takeWhile_drop_run) simp
    then have "takeWhile is_alnum (drop k s) = []" using that by simp
    then show ?thesis by (simp add: rx_seq_single rx_one_grp_plus)
  qed
  show ?thesis
  proof (cases ?n4)
    case 0
    then show ?thesis using whole by (simp add: first_rest_def)
  next
    case (Suc m)
    then have ne4: "takeWhile is_alpha s \<noteq> []" by auto
    have c1: "concat (map ?f (rev [Suc 0 ..< Suc ?n4])) = ?f (Suc m) @ concat (map ?f (rev [Suc 0 ..< Suc m]))"
      using Suc by simp
    show ?thesis
    proof (cases "?nA = Suc m")
      case False
      then have "first_rest (?f (Suc m)) = Some (dropWhile is_alnum s)"
        using fr [of "Suc m"] le Suc by simp
      moreover have "?f (Suc m) \<noteq> []"
        using calculation by (auto simp: first_rest_def)
      moreover have "2 \<le> ?nA" using False le Suc by simp
      ultimately show ?thesis
        using whole c1 ne4 by (simp add: first_rest_append)
    next
      case True
      have e: "?f (Suc m) = []" using fe True by simp
      show ?thesis
      proof (cases m)
        case 0
        then show ?thesis using whole c1 e True ne4 by (simp add: first_rest_def)
      next
        case (Suc j)
        have c2: "concat (map ?f (rev [Suc 0 ..< Suc m])) = ?f (Suc j) @ concat (map ?f (rev [Suc 0 ..< Suc j]))"
          using Suc by simp
        have "first_rest (?f (Suc j)) = Some (dropWhile is_alnum s)"
          using fr [of "Suc j"] True Suc by simp
        moreover have "?f (Suc j) \<noteq> []"
          using calculation by (auto simp: first_rest_def)
        ultimately show ?thesis
          using whole c1 c2 e True Suc ne4 by (simp add: first_rest_append)
      qed
    qed
  qed
qed

lemma fail_alpha: "t \<noteq> [] \<Longrightarrow> is_digit (hd t) \<Longrightarrow> rx_seq (Grp [plus is_alpha] # rs) (g, p, t) = []"
  by (rule rx_seq_fail_first) (simp add: digit_not_alpha)

lemma fail_digit: "t \<noteq> [] \<Longrightarrow> is_alpha (hd t) \<Longrightarrow> rx_seq (Grp [plus is_digit] # rs) (g, p, t) = []"
  by (rule rx_seq_fail_first) (simp add: alpha_not_digit)

lemma first_rest_Nil: "first_rest [] = None"
  by (simp add: first_rest_def)

lemma first_groups_Nil: "first_groups [] = None"
  by (simp add: first_groups_def)

lemma first_rest_pat_normalize:
  "first_rest (rx_seq pat_normalize (gs, prev, s)) = norm_end s"
  unfolding pat_normalize_def norm_end_def Let_def
  by (simp add: rx_seq_step [OF fail_alpha] rx_seq_step [OF fail_digit] tail_letters_alnum first_rest_Nil)

lemma first_groups_grp_plus:
  "first_groups (rx_seq [Grp [plus C]] (gs, prev, s)) =
     (if takeWhile C s = [] then None else Some (gs @ [takeWhile C s]))"
proof (cases "takeWhile C s = []")
  case True
  then show ?thesis by (simp add: rx_seq_single rx_one_grp_plus first_groups_def)
next
  case False
  then obtain m where m: "length (takeWhile C s) = Suc m"
    by (cases "length (takeWhile C s)") auto
  have "take (Suc m) s = takeWhile C s"
    using m by (metis takeWhile_eq_take)
  then show ?thesis using False m
    by (simp add: rx_seq_single rx_one_grp_plus first_groups_def)
qed

lemma first_groups_pat_core:
  "first_groups (rx_seq pat_core ([], prev, s)) = core_groups s"
  unfolding pat_core_def core_groups_def Let_def
  by (simp add: rx_seq_step [OF fail_alpha] rx_seq_step [OF fail_digit] first_groups_grp_plus first_groups_Nil)

lemma norm_end_Nil: "norm_end [] = None"
  by (simp add: norm_end_def)

lemma core_groups_Nil: "core_groups [] = None"
  by (simp add: core_groups_def)

lemma re_scan_pat_normalize:
  "map_option m_text (re_scan pat_normalize prev n s) = norm_find s"
proof (induction s arbitrary: prev n)
  case Nil
  have "first_rest (rx_seq pat_normalize ([], prev, [])) = None"
    by (simp add: first_rest_pat_normalize norm_end_Nil)
  then show ?case by (auto simp: first_rest_def split: list.splits)
next
  case (Cons c cs)
  have fr: "first_rest (rx_seq pat_normalize ([], prev, c # cs)) = norm_end (c # cs)"
    by (rule first_rest_pat_normalize)
  show ?case
  proof (cases "rx_seq pat_normalize ([], prev, c # cs)")
    case Nil
    then have "norm_end (c # cs) = None" using fr by (simp add: first_rest_def)
    then show ?thesis using Nil Cons.IH by simp
  next
    case (Cons st sts)
    then have "norm_end (c # cs) = Some (snd (snd st))" using fr by (simp add: first_rest_def)
    then show ?thesis using Cons by (cases st) (simp add: mk_match_def)
  qed
qed

lemma re_scan_pat_core:
  "map_option m_groups (re_scan pat_core prev n s) = core_find s"
proof (induction s arbitrary: prev n)
  case Nil
  have "first_groups (rx_seq pat_core ([], prev, [])) = None"
    by (simp add: first_groups_pat_core core_groups_Nil)
  then show ?case by (auto simp: first_groups_def split: list.splits)
next
  case (Cons c cs)
  have fr: "first_groups (rx_seq pat_core ([], prev, c # cs)) = core_groups (c # cs)"
    by (rule first_groups_pat_core)
  show ?case
  proof (cases "rx_seq pat_core ([], prev, c # cs)")
    case Nil
    then have "core_groups (c # cs) = None" using fr by (simp add: first_groups_def)
    then show ?thesis using Nil Cons.IH by simp
  next
    case (Cons st sts)
    then have "core_groups (c # cs) = Some (fst st)" using fr by (simp add: first_groups_def)
    then show ?thesis using Cons by (cases st) (simp add: mk_match_def)
  qed
qed

lemma normalize_alt:
  "normalize_subject_code code = (case norm_find (clean code) of Some t \<Rightarrow> t | None \<Rightarrow> clean code)"
proof -
  have e: "norm_find (clean code) = map_option m_text (re_search pat_normalize (clean code))"
    by (simp add: re_search_def re_scan_pat_normalize)
  show ?thesis
    unfolding normalize_subject_code_def Let_def clean_def [symmetric] e
    by (simp add: group_def split: option.splits)
qed

lemma extract_alt:
  "extract_core_code_parts code =
     (case core_find code of
        Some gs \<Rightarrow> (Some (gs ! 0), Some (gs ! 1), Some (gs ! 2), Some (gs ! 3))
      | None \<Rightarrow> (None, None, None, None))"
proof -
  have e: "core_find code = map_option m_groups (re_search pat_core code)"
    by (simp add: re_search_def re_scan_pat_core)
  show ?thesis
    unfolding extract_core_code_parts_def e
    by (simp add: group_def split: option.splits)
qed

lemma replace_all_single_nil: "replace_all [c] [] s = filter (\<lambda>x. x \<noteq> c) s"
  by (induction s) (auto simp: take_Cons')

lemma clean_filter: "clean s = filter (\<lambda>x. x \<noteq> CHR '' '') (strip s)"
  by (simp add: clean_def replace_all_single_nil)

lemma is_space_blank: "is_space CHR '' ''"
  by (simp add: is_space_def)

lemma strip_idem_ends:
  assumes "t = [] \<or> (\<not> is_space (hd t) \<and> \<not> is_space (last t))"
  shows "strip t = t"
proof -
  have "dropWhile is_space t = t"
    using assms by (auto simp: dropWhile_eq_self_iff)
  moreover have "dropWhile is_space (rev t) = rev t"
    using assms by (auto simp: dropWhile_eq_self_iff hd_rev)
  ultimately show ?thesis by (simp add: strip_def)
qed

lemma strip_no_space: "\<forall>x\<in>set s. \<not> is_space x \<Longrightarrow> strip s = s"
  by (rule strip_idem_ends) (cases s, auto)

lemma strip_ends:
  "strip s = [] \<or> (\<not> is_space (hd (strip s)) \<and> \<not> is_space (last (strip s)))"
proof (cases "strip s = []")
  case True
  then show ?thesis by simp
next
  case False
  let ?d = "dropWhile is_space s"
  let ?r = "dropWhile is_space (rev ?d)"
  have sr: "strip s = rev ?r" by (simp add: strip_def)
  then have rne: "?r \<noteq> []" using False by simp
  then have h: "\<not> is_space (hd ?r)" by (rule hd_dropWhile)
  have l: "last (strip s) = hd ?r" using sr by (simp add: last_rev)
  have dne: "?d \<noteq> []" using rne by (auto dest: set_dropWhileD)
  then have hd_d: "\<not> is_space (hd ?d)" by (rule hd_dropWhile)
  have "rev ?d = takeWhile is_space (rev ?d) @ ?r" by simp
  then have "rev (rev ?d) = rev (takeWhile is_space (rev ?d) @ ?r)" by (rule arg_cong)
  then have "?d = rev ?r @ rev (takeWhile is_space (rev ?d))"
    by (simp only: rev_rev_ident rev_append)
  then have "hd ?d = hd (rev ?r @ rev (takeWhile is_space (rev ?d)))" by (rule arg_cong)
  then have "hd ?d = hd (rev ?r)" using rne by simp
  then show ?thesis using h l hd_d sr by simp
qed

lemma last_filter_keep: "xs \<noteq> [] \<Longrightarrow> P (last xs) \<Longrightarrow> last (filter P xs) = last xs"
proof (induction xs)
  case Nil
  then show ?case by simp
next
  case (Cons a xs)
  show ?case
  proof (cases "xs = []")
    case True
    then show ?thesis using Cons.prems by simp
  next
    case False
    then have "last xs \<in> set xs" by simp
    then have "filter P xs \<noteq> []" using Cons.prems False by (auto simp: filter_empty_conv)
    then show ?thesis using Cons False by simp
  qed
qed

lemma clean_idem: "clean (clean s) = clean s"
proof -
  let ?u = "strip s"
  let ?v = "filter (\<lambda>x. x \<noteq> CHR '' '') ?u"
  have v: "clean s = ?v" by (rule clean_filter)
  have ends: "?v = [] \<or> (\<not> is_space (hd ?v) \<and> \<not> is_space (last ?v))"
  proof (cases "?u = []")
    case True
    then show ?thesis by simp
  next
    case False
    then have h: "\<not> is_space (hd ?u)" and l: "\<not> is_space (last ?u)"
      using strip_ends [of s] by auto
    obtain a as where u: "?u = a # as" using False by (cases ?u) auto
    have a: "a \<noteq> CHR '' ''" using h u is_space_blank by auto
    have hv: "hd ?v = hd ?u" using u a by simp
    have "last ?u \<noteq> CHR '' ''" using l is_space_blank by auto
    then have lv: "last ?v = last ?u" using False
      by (simp add: last_filter_keep)
    show ?thesis using hv lv h l by simp
  qed
  have "strip ?v = ?v" using ends by (rule strip_idem_ends)
  then have "clean ?v = filter (\<lambda>x. x \<noteq> CHR '' '') ?v" by (simp add: clean_filter)
  then show ?thesis using v by simp
qed

lemma clean_no_space: "\<forall>x\<in>set t. \<not> is_space x \<Longrightarrow> clean t = t"
proof -
  assume a: "\<forall>x\<in>set t. \<not> is_space x"
  then have "strip t = t" by (rule strip_no_space)
  moreover have "filter (\<lambda>x. x \<noteq> CHR '' '') t = t"
    using a is_space_blank by (auto simp: filter_id_conv)
  ultimately show ?thesis by (simp add: clean_filter)
qed

lemma run_append:
  assumes "\<forall>x\<in>set xs. P x" and "ys = [] \<or> \<not> P (hd ys)"
  shows "takeWhile P (xs @ ys) = xs" and "dropWhile P (xs @ ys) = ys"
proof -
  have y: "takeWhile P ys = []" using assms(2) by (cases ys) auto
  then have y': "dropWhile P ys = ys" by (metis append_Nil takeWhile_dropWhile_id)
  show "takeWhile P (xs @ ys) = xs" using assms(1) y by (simp add: takeWhile_append2)
  show "dropWhile P (xs @ ys) = ys" using assms(1) y' by (simp add: dropWhile_append2)
qed

lemma takeWhile_takeWhile_sub:
  assumes "\<And>x. P x \<Longrightarrow> Q x"
  shows "takeWhile P (takeWhile Q s) = takeWhile P s"
  using assms by (induction s) auto

lemma hd_takeWhile_holds: "takeWhile P s \<noteq> [] \<Longrightarrow> P (hd (takeWhile P s))"
  by (cases s) (auto split: if_splits)

lemma takeWhile_ne_hd: "takeWhile P s \<noteq> [] \<Longrightarrow> P (hd s)"
  by (cases s) (auto split: if_splits)

lemma alpha_alnum: "is_alpha c \<Longrightarrow> is_alnum c"
  by (simp add: is_alnum_def)

lemma digit_alnum: "is_digit c \<Longrightarrow> is_alnum c"
  by (simp add: is_alnum_def)

lemma norm_end_text:
  assumes "norm_end u = Some r"
  defines "t \<equiv> take (length u - length r) u"
  shows "norm_end t = Some []" and "t \<noteq> []" and "\<forall>c\<in>set t. is_alnum c"
proof -
  define d1 where "d1 = takeWhile is_digit u"
  define s1 where "s1 = dropWhile is_digit u"
  define l1 where "l1 = takeWhile is_alpha s1"
  define s2 where "s2 = dropWhile is_alpha s1"
  define d2 where "d2 = takeWhile is_digit s2"
  define s3 where "s3 = dropWhile is_digit s2"
  define a where "a = takeWhile is_alnum s3"
  have cond: "d1 \<noteq> []" "l1 \<noteq> []" "d2 \<noteq> []" "takeWhile is_alpha s3 \<noteq> []" "2 \<le> length a"
    and r: "r = dropWhile is_alnum s3"
    using assms(1) unfolding norm_end_def Let_def d1_def s1_def l1_def s2_def d2_def s3_def a_def
    by (auto split: if_splits)
  have u: "u = d1 @ l1 @ d2 @ a @ r"
    unfolding d1_def l1_def d2_def a_def r s1_def s2_def s3_def by simp
  have len: "length u - length r = length (d1 @ l1 @ d2 @ a)"
    using arg_cong [OF u, of length] by simp
  have "take (length x) (x @ r) = x" for x :: string
    by simp
  from this [of "d1 @ l1 @ d2 @ a"] have t: "t = d1 @ l1 @ d2 @ a"
    unfolding t_def len using u by simp
  have Pd1: "\<forall>x\<in>set d1. is_digit x" unfolding d1_def by (auto dest: set_takeWhileD)
  have Pl1: "\<forall>x\<in>set l1. is_alpha x" unfolding l1_def by (auto dest: set_takeWhileD)
  have Pd2: "\<forall>x\<in>set d2. is_digit x" unfolding d2_def by (auto dest: set_takeWhileD)
  have Pa: "\<forall>x\<in>set a. is_alnum x" unfolding a_def by (auto dest: set_takeWhileD)
  have hl1: "is_alpha (hd l1)" using cond(2) unfolding l1_def by (rule hd_takeWhile_holds)
  have hd2: "is_digit (hd d2)" using cond(3) unfolding d2_def by (rule hd_takeWhile_holds)
  have la: "takeWhile is_alpha a = takeWhile is_alpha s3"
    unfolding a_def by (rule takeWhile_takeWhile_sub) (rule alpha_alnum)
  have ane: "a \<noteq> []" using cond(5) by auto
  have "takeWhile is_alpha a \<noteq> []" using cond(4) la by simp
  then have ha: "is_alpha (hd a)" by (rule takeWhile_ne_hd)
  have h1: "l1 @ d2 @ a = [] \<or> \<not> is_digit (hd (l1 @ d2 @ a))"
    using hl1 cond(2) by (simp add: alpha_not_digit)
  have h2: "d2 @ a = [] \<or> \<not> is_alpha (hd (d2 @ a))"
    using hd2 cond(3) by (simp add: digit_not_alpha)
  have h3: "a = [] \<or> \<not> is_digit (hd a)"
    using ha by (simp add: alpha_not_digit)
  have e1: "takeWhile is_digit t = d1" "dropWhile is_digit t = l1 @ d2 @ a"
    unfolding t by (rule run_append [OF Pd1 h1])+
  have e2: "takeWhile is_alpha (l1 @ d2 @ a) = l1" "dropWhile is_alpha (l1 @ d2 @ a) = d2 @ a"
    by (rule run_append [OF Pl1 h2])+
  have e3: "takeWhile is_digit (d2 @ a) = d2" "dropWhile is_digit (d2 @ a) = a"
    by (rule run_append [OF Pd2 h3])+
  have e4: "takeWhile is_alnum a = a" "dropWhile is_alnum a = []"
    using Pa by auto
  show "norm_end t = Some []"
    unfolding norm_end_def Let_def e1 e2 e3 e4 la using cond by simp
  show "t \<noteq> []" using t cond(1) by simp
  show "\<forall>c\<in>set t. is_alnum c"
    using t Pd1 Pl1 Pd2 Pa by (auto simp: alpha_alnum digit_alnum)
qed

lemma norm_find_suffix:
  "norm_find s = Some t \<Longrightarrow> \<exists>u r. norm_end u = Some r \<and> t = take (length u - length r) u"
proof (induction s)
  case Nil
  then show ?case by simp
next
  case (Cons c cs)
  show ?case
  proof (cases "norm_end (c # cs)")
    case None
    then show ?thesis using Cons by simp
  next
    case (Some r)
    then have "t = take (length (c # cs) - length r) (c # cs)" using Cons.prems by simp
    then show ?thesis using Some by blast
  qed
qed

lemma norm_find_fixed:
  assumes "norm_find s = Some t"
  shows "norm_find t = Some t" and "\<forall>c\<in>set t. is_alnum c"
proof -
  obtain u r where ur: "norm_end u = Some r" "t = take (length u - length r) u"
    using assms norm_find_suffix by blast
  have e: "norm_end t = Some []" and ne: "t \<noteq> []" and al: "\<forall>c\<in>set t. is_alnum c"
    using norm_end_text [OF ur(1)] ur(2) by auto
  obtain c cs where t: "t = c # cs" using ne by (cases t) auto
  show "norm_find t = Some t" using e unfolding t by simp
  show "\<forall>c\<in>set t. is_alnum c" by (rule al)
qed

lemma alnum_not_space: "is_alnum c \<Longrightarrow> \<not> is_space c"
  by (auto simp: is_alnum_def is_alpha_def is_digit_def is_space_def Let_def)

section \<open>Code normalizer: idempotence\<close>

lemma normalize_idem_aux:
  "normalize_subject_code (normalize_subject_code code) = normalize_subject_code code"
proof (cases "norm_find (clean code)")
  case None
  then have n: "normalize_subject_code code = clean code" by (simp add: normalize_alt)
  show ?thesis unfolding n using None by (simp add: normalize_alt clean_idem)
next
  case (Some t)
  then have n: "normalize_subject_code code = t" by (simp add: normalize_alt)
  have f: "norm_find t = Some t" and al: "\<forall>c\<in>set t. is_alnum c"
    using norm_find_fixed [OF Some] by auto
  have "clean t = t" using al by (intro clean_no_space) (auto dest: alnum_not_space)
  then show ?thesis unfolding n using f by (simp add: normalize_alt)
qed

text \<open>
  Claim C6, as the specification states it: for every string, if the structural grammar
  matches nowhere in the string then \<open>normalize\<close> returns the string unchanged.  The code
  strips the string and removes its spaces before it searches, and returns the cleaned
  string when nothing matches: for \<open>23CS 3\<close> the grammar matches nowhere, and the result
  is \<open>23CS3\<close>, not the input.
\<close>

theorem normalize_unchanged_counterexample:
  "re_search pat_normalize ''23CS 3'' = None \<and>
   normalize_subject_code ''23CS 3'' = ''23CS3'' \<and>
   normalize_subject_code ''23CS 3'' \<noteq> ''23CS 3''"
  by code_simp

text \<open>
  Claim C6, amended: \<open>normalize\<close> is idempotent on every string; when the grammar matches
  nowhere in the string with its surrounding whitespace stripped and its spaces removed,
  \<open>normalize\<close> returns that cleaned string, which is the input itself when the input
  contains no whitespace.  The function is total: it never fails.
\<close>

theorem normalize_idempotent:
  "normalize_subject_code (normalize_subject_code code) = normalize_subject_code code \<and>
   (re_search pat_normalize (replace_all '' '' [] (strip code)) = None \<longrightarrow>
      normalize_subject_code code = replace_all '' '' [] (strip code)) \<and>
   ((\<forall>c\<in>set code. \<not> is_space c) \<and> re_search pat_normalize code = None \<longrightarrow>
      normalize_subject_code code = code)"
proof (intro conjI impI)
  show "normalize_subject_code (normalize_subject_code code) = normalize_subject_code code"
    by (rule normalize_idem_aux)
next
  assume "re_search pat_normalize (replace_all '' '' [] (strip code)) = None"
  then show "normalize_subject_code code = replace_all '' '' [] (strip code)"
    by (simp add: normalize_subject_code_def)
next
  assume a: "(\<forall>c\<in>set code. \<not> is_space c) \<and> re_search pat_normalize code = None"
  then have "clean code = code" by (simp add: clean_no_space)
  then have "replace_all '' '' [] (strip code) = code" by (simp add: clean_def)
  then show "normalize_subject_code code = code"
    using a by (simp add: normalize_subject_code_def)
qed

theorem normalize_idempotent_witness:
  "normalize_subject_code (normalize_subject_code '' 23CS3 CSFM-x'') = ''23CS3CSFM'' \<and>
   re_search pat_normalize (replace_all '' '' [] (strip ''23CS 3'')) = None \<and>
   normalize_subject_code ''23CS 3'' = ''23CS3'' \<and>
   list_all (\<lambda>c. \<not> is_space c) ''CS101'' \<and> re_search pat_normalize ''CS101'' = None \<and>
   normalize_subject_code ''CS101'' = ''CS101''"
proof -
  have a: "normalize_subject_code '' 23CS3 CSFM-x'' = ''23CS3CSFM''" by code_simp
  have b: "re_search pat_normalize (replace_all '' '' [] (strip ''23CS 3'')) = None" by code_simp
  have c: "list_all (\<lambda>c. \<not> is_space c) ''CS101'' \<and> re_search pat_normalize ''CS101'' = None"
    by code_simp
  have d: "replace_all '' '' [] (strip ''23CS 3'') = ''23CS3''" by code_simp
  show ?thesis
    using normalize_idempotent [of "'' 23CS3 CSFM-x''"] normalize_idempotent [of "''23CS 3''"]
      normalize_idempotent [of "''CS101''"] a b c d
    by (simp add: list_all_iff)
qed

section \<open>Lemmas about float rounding\<close>

lemmas float_eval = fl_def flog2_def round_half_even_def ilog2.simps Let_def fadd_def fmul_def
  fdiv_def py_round_def

lemma ilog2_bounds: "0 < n \<Longrightarrow> 2 ^ ilog2 n \<le> n \<and> n < 2 ^ Suc (ilog2 n)"
proof (induction n rule: ilog2.induct)
  case (1 n)
  show ?case
  proof (cases "n < 2")
    case True
    then show ?thesis using 1(2) by (simp add: ilog2.simps)
  next
    case False
    then have "0 < n div 2" by simp
    then have ih: "2 ^ ilog2 (n div 2) \<le> n div 2 \<and> n div 2 < 2 ^ Suc (ilog2 (n div 2))"
      using 1(1) False by simp
    have e: "ilog2 n = Suc (ilog2 (n div 2))" using False by (simp add: ilog2.simps)
    have "2 * 2 ^ ilog2 (n div 2) \<le> n" using ih by linarith
    moreover have "n < 2 * 2 ^ Suc (ilog2 (n div 2))" using ih by linarith
    ultimately show ?thesis unfolding e by simp
  qed
qed

lemma nat_floor_bounds:
  assumes "1 \<le> (z::real)"
  defines "N \<equiv> nat \<lfloor>z\<rfloor>"
  shows "0 < N" and "(2::real) ^ ilog2 N \<le> z" and "z < 2 ^ Suc (ilog2 N)"
proof -
  have fz: "1 \<le> \<lfloor>z\<rfloor>" using assms(1) by simp
  then show n: "0 < N" unfolding N_def by simp
  have rn: "real N = of_int \<lfloor>z\<rfloor>" unfolding N_def using fz by simp
  have b: "2 ^ ilog2 N \<le> N \<and> N < 2 ^ Suc (ilog2 N)" using ilog2_bounds [OF n] .
  have a: "(2::real) ^ ilog2 N \<le> real N"
    using b by (metis of_nat_le_iff of_nat_numeral of_nat_power)
  have "real N \<le> z" unfolding rn by (rule of_int_floor_le)
  then show "(2::real) ^ ilog2 N \<le> z" using a by linarith
  have "N + 1 \<le> 2 ^ Suc (ilog2 N)" using b by simp
  then have c: "real (N + 1) \<le> (2::real) ^ Suc (ilog2 N)"
    by (metis of_nat_le_iff of_nat_numeral of_nat_power)
  have "z < real N + 1" unfolding rn by linarith
  then show "z < 2 ^ Suc (ilog2 N)" using c by simp
qed

lemma flog2_bounds:
  assumes "0 < x"
  shows "2 powi (flog2 x) \<le> x \<and> x < 2 powi (flog2 x + 1)"
proof (cases "1 \<le> x")
  case True
  define L where "L = ilog2 (nat \<lfloor>x\<rfloor>)"
  have f: "flog2 x = int L" using True by (simp add: flog2_def L_def)
  have lo: "(2::real) ^ L \<le> x" and hi: "x < 2 ^ Suc L"
    unfolding L_def using nat_floor_bounds [OF True] by auto
  have "(2::real) powi (int L + 1) = 2 ^ Suc L"
    by (simp add: power_int_add)
  then show ?thesis unfolding f using lo hi by simp
next
  case False
  then have x1: "x < 1" by simp
  define L where "L = ilog2 (nat \<lfloor>1 / x\<rfloor>)"
  have z1: "1 \<le> 1 / x" using assms x1 by simp
  have zlo: "(2::real) ^ L \<le> 1 / x" and zhi: "1 / x < 2 ^ Suc L"
    unfolding L_def using nat_floor_bounds [OF z1] by auto
  have xhi: "x \<le> 1 / 2 ^ L"
    using zlo assms by (simp add: field_simps)
  have xlo: "1 / 2 ^ Suc L < x"
    using zhi assms by (simp add: field_simps)
  have p1: "(2::real) powi (- int L) = 1 / 2 ^ L"
    by (simp add: power_int_minus field_simps)
  have p2: "(2::real) powi (- int L - 1) = 1 / 2 ^ Suc L"
    by (simp add: power_int_diff power_int_minus field_simps)
  have "(2::real) powi (- int L + 1) = 2 powi (- int L) * 2 powi 1"
    by (rule power_int_add) simp
  then have p3: "(2::real) powi (- int L + 1) = 2 / 2 ^ L"
    unfolding p1 by simp
  show ?thesis
  proof (cases "2 powi (- int L) \<le> x")
    case True
    then have f: "flog2 x = - int L" using False by (simp add: flog2_def Let_def L_def)
    have "x = 1 / 2 ^ L" using True xhi p1 by simp
    then have "x < 2 powi (- int L + 1)"
      unfolding p3 by (simp add: field_simps)
    then show ?thesis unfolding f using True by simp
  next
    case F2: False
    then have f: "flog2 x = - int L - 1" using False by (simp add: flog2_def Let_def L_def)
    have "x < 2 powi (- int L)" using F2 by simp
    then show ?thesis unfolding f using xlo p2 by simp
  qed
qed

lemma two_powi_less_cancel: "(2::real) powi m < 2 powi n \<Longrightarrow> m < n"
proof (rule ccontr)
  assume a: "(2::real) powi m < 2 powi n" and "\<not> m < n"
  then have "n \<le> m" by simp
  then have "(2::real) powi n \<le> 2 powi m" by (rule power_int_increasing) simp
  then show False using a by simp
qed

lemma flog2_unique:
  assumes "2 powi k \<le> x" and "x < 2 powi (k + 1)"
  shows "flog2 x = k"
proof -
  have "0 < (2::real) powi k" by simp
  then have pos: "0 < x" using assms(1) by linarith
  have b: "2 powi (flog2 x) \<le> x" "x < 2 powi (flog2 x + 1)"
    using flog2_bounds [OF pos] by auto
  have "(2::real) powi (flog2 x) < 2 powi (k + 1)" using b(1) assms(2) by linarith
  then have 1: "flog2 x < k + 1" by (rule two_powi_less_cancel)
  have "(2::real) powi k < 2 powi (flog2 x + 1)" using b(2) assms(1) by linarith
  then have 2: "k < flog2 x + 1" by (rule two_powi_less_cancel)
  show ?thesis using 1 2 by simp
qed

lemma flog2_mono:
  assumes "0 < a" and "a \<le> x"
  shows "flog2 a \<le> flog2 x"
proof -
  have "0 < x" using assms by simp
  then have "x < 2 powi (flog2 x + 1)" using flog2_bounds by simp
  moreover have "2 powi (flog2 a) \<le> a" using flog2_bounds [OF assms(1)] by simp
  ultimately have "(2::real) powi (flog2 a) < 2 powi (flog2 x + 1)" using assms(2) by linarith
  then have "flog2 a < flog2 x + 1" by (rule two_powi_less_cancel)
  then show ?thesis by simp
qed

lemma round_half_even_of_int: "round_half_even (of_int n) = n"
  by (simp add: round_half_even_def)

lemma floor_le_round_half_even: "\<lfloor>y\<rfloor> \<le> round_half_even y"
  by (simp add: round_half_even_def Let_def)

lemma round_half_even_le: "round_half_even y \<le> \<lfloor>y\<rfloor> + 1"
  by (simp add: round_half_even_def Let_def)

lemma powi_shift: "(2::real) powi (k + int n) = 2 powi k * 2 ^ n"
  by (simp add: power_int_add)

text \<open>The scaled significand of a positive number lies in \<open>[2^52, 2^53)\<close>.\<close>

lemma scaled_bounds:
  assumes "0 < x"
  defines "e \<equiv> flog2 x - 52"
  shows "2 ^ 52 \<le> x / 2 powi e" and "x / 2 powi e < 2 ^ 53"
proof -
  have b: "2 powi (flog2 x) \<le> x" "x < 2 powi (flog2 x + 1)"
    using flog2_bounds [OF assms(1)] by auto
  have fx: "flog2 x = e + int 52" "flog2 x + 1 = e + int 53" by (simp_all add: e_def)
  have p: "(2::real) powi (flog2 x) = 2 powi e * 2 ^ 52"
    by (subst fx(1)) (rule powi_shift)
  have q: "(2::real) powi (flog2 x + 1) = 2 powi e * 2 ^ 53"
    by (subst fx(2)) (rule powi_shift)
  have pe: "0 < (2::real) powi e" by simp
  show "2 ^ 52 \<le> x / 2 powi e" using b(1) pe unfolding p by (simp add: field_simps)
  show "x / 2 powi e < 2 ^ 53" using b(2) pe unfolding q by (simp add: field_simps)
qed

lemma fl_pos_form:
  assumes "0 < x"
  shows "fl x = of_int (round_half_even (x / 2 powi (flog2 x - 52))) * 2 powi (flog2 x - 52)"
    and "2 ^ 52 \<le> round_half_even (x / 2 powi (flog2 x - 52))"
    and "round_half_even (x / 2 powi (flog2 x - 52)) \<le> 2 ^ 53"
proof -
  let ?y = "x / 2 powi (flog2 x - 52)"
  show "fl x = of_int (round_half_even ?y) * 2 powi (flog2 x - 52)"
    using assms by (simp add: fl_def Let_def)
  have y: "2 ^ 52 \<le> ?y" "?y < 2 ^ 53" using scaled_bounds [OF assms] by auto
  have "(2::int) ^ 52 \<le> \<lfloor>?y\<rfloor>" using y(1) by (simp add: le_floor_iff)
  then show "2 ^ 52 \<le> round_half_even ?y" using floor_le_round_half_even [of ?y] by linarith
  have "\<lfloor>?y\<rfloor> < 2 ^ 53" using y(2) by (simp add: floor_less_iff)
  then show "round_half_even ?y \<le> 2 ^ 53" using round_half_even_le [of ?y] by linarith
qed

lemma fl_zero: "fl 0 = 0"
  by (simp add: fl_def)

lemma fl_pos: "0 < x \<Longrightarrow> 0 < fl x"
proof -
  assume a: "0 < x"
  have "0 < round_half_even (x / 2 powi (flog2 x - 52))"
    using fl_pos_form(2) [OF a] by (smt (verit) zero_less_power)
  then show ?thesis unfolding fl_pos_form(1) [OF a] by simp
qed

lemma fl_nonneg: "0 \<le> x \<Longrightarrow> 0 \<le> fl x"
  using fl_pos [of x] fl_zero by (cases "x = 0") (auto simp: less_le)

lemma fl_of_scaled_int:
  assumes "0 < x" and "x / 2 powi (flog2 x - 52) = of_int n"
  shows "fl x = x"
proof -
  have "fl x = of_int (round_half_even (of_int n)) * 2 powi (flog2 x - 52)"
    using fl_pos_form(1) [OF assms(1)] assms(2) by simp
  also have "\<dots> = x / 2 powi (flog2 x - 52) * 2 powi (flog2 x - 52)"
    by (simp add: round_half_even_of_int assms(2))
  also have "\<dots> = x" by simp
  finally show ?thesis .
qed

lemma fl_exact:
  assumes "0 < m" and "m \<le> 2 ^ 53"
  shows "fl (of_int m * 2 powi k) = of_int m * 2 powi k"
proof -
  define x :: real where "x = of_int m * 2 powi k"
  define e where "e = flog2 x - 52"
  define d where "d = k - e"
  have xpos: "0 < x" using assms(1) by (simp add: x_def)
  have y: "2 ^ 52 \<le> x / 2 powi e" "x / 2 powi e < 2 ^ 53"
    unfolding e_def using scaled_bounds [OF xpos] by auto
  have yd: "x / 2 powi e = of_int m * 2 powi d"
    unfolding x_def d_def by (simp add: power_int_diff)
  have "\<exists>n::int. x / 2 powi e = of_int n"
  proof (cases "0 \<le> d")
    case True
    then have "(2::real) powi d = 2 ^ nat d" by (simp add: power_int_def)
    then have "x / 2 powi e = of_int (m * 2 ^ nat d)" using yd by simp
    then show ?thesis by blast
  next
    case False
    then have "d \<le> - 1" by simp
    then have "(2::real) powi d \<le> 2 powi (- 1)" by (rule power_int_increasing) simp
    then have h: "(2::real) powi d \<le> 1 / 2" by (simp add: power_int_minus)
    have "real_of_int m \<le> 2 ^ 53" using assms(2) by (metis of_int_le_iff of_int_numeral of_int_power)
    moreover have "0 < real_of_int m" using assms(1) by simp
    moreover have "0 \<le> (2::real) powi d" by simp
    ultimately have "real_of_int m * 2 powi d \<le> 2 ^ 53 * (1 / 2)"
      using h by (intro mult_mono) auto
    then have "x / 2 powi e \<le> 2 ^ 52" using yd by simp
    then have "x / 2 powi e = of_int (2 ^ 52)" using y(1) by simp
    then show ?thesis by blast
  qed
  then obtain n :: int where "x / 2 powi (flog2 x - 52) = of_int n" unfolding e_def by blast
  then have "fl x = x" using xpos by (rule fl_of_scaled_int [rotated])
  then show ?thesis unfolding x_def .
qed

lemma fl_idem_pos:
  assumes "0 < x"
  shows "fl (fl x) = fl x"
proof -
  let ?m = "round_half_even (x / 2 powi (flog2 x - 52))"
  have f: "fl x = of_int ?m * 2 powi (flog2 x - 52)" and lo: "2 ^ 52 \<le> ?m" and hi: "?m \<le> 2 ^ 53"
    using fl_pos_form [OF assms] by auto
  have "0 < ?m" using lo by (smt (verit) zero_less_power)
  then show ?thesis unfolding f using hi by (rule fl_exact)
qed

lemma fl_idem_nonneg: "0 \<le> x \<Longrightarrow> fl (fl x) = fl x"
  using fl_idem_pos [of x] by (cases "x = 0") (auto simp: fl_zero less_le)

text \<open>Rounding never goes below a representable number that the exact value reaches.\<close>

lemma fl_ge_representable:
  assumes "0 \<le> a" and "fl a = a" and "a \<le> x"
  shows "a \<le> fl x"
proof (cases "a = 0")
  case True
  then show ?thesis using assms fl_nonneg [of x] by simp
next
  case False
  then have apos: "0 < a" using assms(1) by simp
  then have xpos: "0 < x" using assms(3) by simp
  let ?ea = "flog2 a - 52"
  let ?ex = "flog2 x - 52"
  let ?ma = "round_half_even (a / 2 powi ?ea)"
  let ?mx = "round_half_even (x / 2 powi ?ex)"
  have fa: "a = of_int ?ma * 2 powi ?ea"
    using fl_pos_form(1) [OF apos] assms(2) by simp
  have fx: "fl x = of_int ?mx * 2 powi ?ex" and lox: "2 ^ 52 \<le> ?mx"
    using fl_pos_form [OF xpos] by auto
  have le: "flog2 a \<le> flog2 x" using apos assms(3) by (rule flog2_mono)
  show ?thesis
  proof (cases "flog2 a = flog2 x")
    case True
    define ma where "ma = round_half_even (a / 2 powi ?ea)"
    have pe: "0 < (2::real) powi ?ex" by simp
    have fa': "a = of_int ma * 2 powi ?ex" using fa True by (simp add: ma_def)
    then have "a / 2 powi ?ex = of_int ma" using pe by simp
    moreover have "a / 2 powi ?ex \<le> x / 2 powi ?ex"
      using assms(3) pe by (simp add: divide_right_mono)
    ultimately have "of_int ma \<le> x / 2 powi ?ex" by simp
    then have "ma \<le> \<lfloor>x / 2 powi ?ex\<rfloor>" by (simp add: le_floor_iff)
    then have "ma \<le> ?mx" using floor_le_round_half_even [of "x / 2 powi ?ex"] by linarith
    then have "real_of_int ma * 2 powi ?ex \<le> of_int ?mx * 2 powi ?ex"
      using pe by (simp add: mult_right_mono)
    then show ?thesis unfolding fx using fa' by linarith
  next
    case False
    then have lt: "flog2 a + 1 \<le> flog2 x" using le by simp
    have "a < 2 powi (flog2 a + 1)" using flog2_bounds [OF apos] by simp
    also have "\<dots> \<le> 2 powi (flog2 x)" using lt by (rule power_int_increasing) simp
    also have "\<dots> = 2 powi ?ex * 2 ^ 52"
    proof -
      have "flog2 x = ?ex + int 52" by simp
      then show ?thesis by (metis powi_shift)
    qed
    also have "\<dots> \<le> 2 powi ?ex * of_int ?mx"
    proof -
      have "(2::real) ^ 52 \<le> of_int ?mx" using lox by (metis of_int_le_iff of_int_numeral of_int_power)
      then show ?thesis by (simp add: mult_left_mono)
    qed
    finally show ?thesis using fx by (simp add: mult.commute)
  qed
qed

lemma fadd_ge_left:
  assumes "0 \<le> a" and "fl a = a" and "0 \<le> b"
  shows "a \<le> fadd a b"
  unfolding fadd_def using assms by (intro fl_ge_representable) auto

section \<open>The semester average\<close>

lemma sgpa_step_skip: "\<not> included item \<Longrightarrow> sgpa_step acc item = acc"
  by (cases acc, cases item) (auto simp: sgpa_step_def included_def split: option.splits)

lemma sgpa_step_included:
  "included item \<Longrightarrow>
   sgpa_step (tc, ws, sp) item =
     (fadd tc (credit_of item), fadd ws (weighted_of item), sp @ [point_of item])"
  by (cases item)
     (auto simp: sgpa_step_def included_def credit_of_def weighted_of_def point_of_def Let_def
           split: option.splits)

lemma sgpa_loop_char:
  "foldl sgpa_step (tc, ws, sp) subjects =
     (foldl fadd tc (map credit_of (filter included subjects)),
      foldl fadd ws (map weighted_of (filter included subjects)),
      sp @ map point_of (filter included subjects))"
proof (induction subjects arbitrary: tc ws sp)
  case Nil
  then show ?case by simp
next
  case (Cons item subjects)
  show ?case
  proof (cases "included item")
    case True
    then show ?thesis using Cons [of "fadd tc (credit_of item)" "fadd ws (weighted_of item)" "sp @ [point_of item]"]
      by (simp add: sgpa_step_included)
  next
    case False
    then show ?thesis using Cons [of tc ws sp] by (simp add: sgpa_step_skip)
  qed
qed

lemma fsum_pos:
  assumes "\<forall>c\<in>set cs. 0 < c" and "0 \<le> acc" and "cs \<noteq> [] \<or> 0 < acc"
  shows "0 < foldl fadd acc cs \<or> (cs = [] \<and> foldl fadd acc cs = acc)"
  using assms
proof (induction cs arbitrary: acc)
  case Nil
  then show ?case by simp
next
  case (Cons c cs)
  have "0 < acc + c" using Cons.prems by auto
  then have p: "0 < fadd acc c" unfolding fadd_def by (rule fl_pos)
  have "0 < foldl fadd (fadd acc c) cs \<or> (cs = [] \<and> foldl fadd (fadd acc c) cs = fadd acc c)"
    using Cons.prems p by (intro Cons.IH) auto
  then show ?case using p by auto
qed

lemma calculate_sgpa_returns: "\<exists>r. calculate_sgpa subjects = Inr r"
  by (auto simp: calculate_sgpa_def fdiv_def split: prod.splits)

lemma cancel_grades: "grade_points_get ''A'' = 8" "grade_points_get ''B'' = 6"
  by (simp_all add: grade_points_get_def GRADE_POINTS_def dict_get_def)

lemma cancel_floats: "fmul 2 8 = 16" "fmul (- 2) 6 = - 12" "fmul (- 2) 8 = - 16"
  "fadd 0 2 = 2" "fadd 2 (- 2) = 0" "fadd 0 16 = 16" "fadd 16 (- 12) = 4"
  "fadd 0 (- 2) = - 2" "fadd 0 (- 16) = - 16"
  by (simp_all add: float_eval)

lemma cancel_quotient: "py_round (fl (- 16 / - 2)) 2 = 8"
  by (simp add: float_eval)

text \<open>
  Claim C2, as the specification states it: \<open>(0, [], 0, 0)\<close> is returned when the total
  of the included credits is zero, and the rounded quotient otherwise.  The guard of the
  source is \<open>total_credits <= 0\<close> and the function returns the list and the totals it
  has accumulated: for the credits 2 and -2 the total is zero and the result is
  \<open>(0, [two points], 0, 4)\<close>; for the single credit -2 the total is -2, not zero, and the
  sgpa returned is 0, not the quotient 8.
\<close>

theorem calculate_sgpa_zero_total_counterexample:
  "foldl fadd 0 (map credit_of (filter included cancelling_subjects)) = 0 \<and>
   calculate_sgpa cancelling_subjects =
     Inr (0, map point_of cancelling_subjects, 0, 4) \<and>
   calculate_sgpa cancelling_subjects \<noteq> Inr (0, [], 0, 0) \<and>
   foldl fadd 0 (map credit_of (filter included negative_subjects)) = - 2 \<and>
   foldl fadd 0 (map weighted_of (filter included negative_subjects)) = - 16 \<and>
   py_round (fl (- 16 / - 2)) 2 = 8 \<and>
   calculate_sgpa negative_subjects = Inr (0, map point_of negative_subjects, - 2, - 16)"
proof -
  have i1: "filter included cancelling_subjects = cancelling_subjects"
    by (simp add: cancelling_subjects_def included_def)
  have i2: "filter included negative_subjects = negative_subjects"
    by (simp add: negative_subjects_def included_def)
  have c1: "map credit_of cancelling_subjects = [2, - 2]"
    by (simp add: cancelling_subjects_def credit_of_def)
  have w1: "map weighted_of cancelling_subjects = [16, - 12]"
    by (simp add: cancelling_subjects_def weighted_of_def credit_of_def cancel_grades cancel_floats)
  have c2: "map credit_of negative_subjects = [- 2]"
    by (simp add: negative_subjects_def credit_of_def)
  have w2: "map weighted_of negative_subjects = [- 16]"
    by (simp add: negative_subjects_def weighted_of_def credit_of_def cancel_grades cancel_floats)
  have l1: "foldl sgpa_step (0, 0, []) cancelling_subjects = (0, 4, map point_of cancelling_subjects)"
    using sgpa_loop_char [of 0 0 "[]" cancelling_subjects] unfolding i1 c1 w1 by (simp add: cancel_floats)
  have l2: "foldl sgpa_step (0, 0, []) negative_subjects = (- 2, - 16, map point_of negative_subjects)"
    using sgpa_loop_char [of 0 0 "[]" negative_subjects] unfolding i2 c2 w2 by (simp add: cancel_floats)
  have r1: "calculate_sgpa cancelling_subjects = Inr (0, map point_of cancelling_subjects, 0, 4)"
    unfolding calculate_sgpa_def l1 by simp
  have r2: "calculate_sgpa negative_subjects = Inr (0, map point_of negative_subjects, - 2, - 16)"
    unfolding calculate_sgpa_def l2 by simp
  have ne: "calculate_sgpa cancelling_subjects \<noteq> Inr (0, [], 0, 0)"
    unfolding r1 by (simp add: cancelling_subjects_def)
  have t1: "foldl fadd 0 (map credit_of (filter included cancelling_subjects)) = 0"
    unfolding i1 c1 by (simp add: cancel_floats)
  have t2: "foldl fadd 0 (map credit_of (filter included negative_subjects)) = - 2"
    unfolding i2 c2 by (simp add: cancel_floats)
  have t3: "foldl fadd 0 (map weighted_of (filter included negative_subjects)) = - 16"
    unfolding i2 w2 by (simp add: cancel_floats)
  show ?thesis by (intro conjI t1 r1 ne t2 t3 cancel_quotient r2)
qed

text \<open>
  Claim C2, amended: \<open>calculate_sgpa\<close> skips every subject whose credit is missing or
  zero: the totals and the list of points are those of the included subjects alone.  It
  never divides by zero: it always returns a result.  When the total of the included
  credits is zero or negative it returns 0 with the list and the totals accumulated, and
  otherwise the quotient of the weighted sum by the total credits, rounded to two
  decimals, with them.  On the empty mapping the result is \<open>(0, [], 0, 0)\<close>.  When no
  credit is negative the total is not negative, a zero total gives \<open>(0, [], 0, 0)\<close> and
  any other total gives the rounded quotient.
\<close>

theorem calculate_sgpa_spec:
  "foldl sgpa_step (0, 0, []) subjects =
     (foldl fadd 0 (map credit_of (filter included subjects)),
      foldl fadd 0 (map weighted_of (filter included subjects)),
      map point_of (filter included subjects)) \<and>
   calculate_sgpa [] = Inr (0, [], 0, 0) \<and>
   (\<exists>r. calculate_sgpa subjects = Inr r) \<and>
   (let tc = foldl fadd 0 (map credit_of (filter included subjects));
        ws = foldl fadd 0 (map weighted_of (filter included subjects))
    in calculate_sgpa subjects =
         Inr (if tc \<le> 0 then 0 else py_round (fl (ws / tc)) 2,
              map point_of (filter included subjects), tc, ws)) \<and>
   ((\<forall>item\<in>set subjects. 0 \<le> credit_of item) \<longrightarrow>
      (let tc = foldl fadd 0 (map credit_of (filter included subjects));
           ws = foldl fadd 0 (map weighted_of (filter included subjects))
       in 0 \<le> tc \<and>
          (tc = 0 \<longrightarrow> calculate_sgpa subjects = Inr (0, [], 0, 0)) \<and>
          (tc \<noteq> 0 \<longrightarrow>
             calculate_sgpa subjects =
               Inr (py_round (fl (ws / tc)) 2, map point_of (filter included subjects), tc, ws))))"
proof (intro conjI impI)
  show loop: "foldl sgpa_step (0, 0, []) subjects =
     (foldl fadd 0 (map credit_of (filter included subjects)),
      foldl fadd 0 (map weighted_of (filter included subjects)),
      map point_of (filter included subjects))"
    using sgpa_loop_char [of 0 0 "[]" subjects] by simp
  show "calculate_sgpa [] = Inr (0, [], 0, 0)"
    by (simp add: calculate_sgpa_def)
  show "\<exists>r. calculate_sgpa subjects = Inr r"
    by (rule calculate_sgpa_returns)
  define inc where "inc = filter included subjects"
  define tc where "tc = foldl fadd 0 (map credit_of inc)"
  define ws where "ws = foldl fadd 0 (map weighted_of inc)"
  have calc: "calculate_sgpa subjects =
      Inr (if tc \<le> 0 then 0 else py_round (fl (ws / tc)) 2, map point_of inc, tc, ws)"
    unfolding calculate_sgpa_def loop by (simp add: inc_def tc_def ws_def fdiv_def)
  show "let tc = foldl fadd 0 (map credit_of (filter included subjects));
        ws = foldl fadd 0 (map weighted_of (filter included subjects))
    in calculate_sgpa subjects =
         Inr (if tc \<le> 0 then 0 else py_round (fl (ws / tc)) 2,
              map point_of (filter included subjects), tc, ws)"
    using calc unfolding Let_def tc_def ws_def inc_def .
  assume nonneg: "\<forall>item\<in>set subjects. 0 \<le> credit_of item"
  have pos: "\<forall>c\<in>set (map credit_of inc). 0 < c"
  proof
    fix c assume "c \<in> set (map credit_of inc)"
    then obtain item where i: "item \<in> set subjects" "included item" "c = credit_of item"
      unfolding inc_def by auto
    have "credit_of item \<noteq> 0" using i(2) by (auto simp: included_def credit_of_def split: option.splits)
    then show "0 < c" using nonneg i by (auto simp: less_le)
  qed
  have alt: "0 < tc \<or> (map credit_of inc = [] \<and> tc = 0)"
  proof (cases "map credit_of inc = []")
    case True
    then show ?thesis by (simp add: tc_def)
  next
    case False
    then show ?thesis using fsum_pos [OF pos, of 0] by (auto simp: tc_def)
  qed
  have ge: "0 \<le> tc" using alt by auto
  have zero: "tc = 0 \<longrightarrow> calculate_sgpa subjects = Inr (0, [], 0, 0)"
  proof
    assume z: "tc = 0"
    then have "inc = []" using alt by auto
    then show "calculate_sgpa subjects = Inr (0, [], 0, 0)"
      unfolding calc by (simp add: tc_def ws_def)
  qed
  have nonzero: "tc \<noteq> 0 \<longrightarrow> calculate_sgpa subjects =
      Inr (py_round (fl (ws / tc)) 2, map point_of inc, tc, ws)"
    using alt unfolding calc by auto
  show "let tc = foldl fadd 0 (map credit_of (filter included subjects));
           ws = foldl fadd 0 (map weighted_of (filter included subjects))
       in 0 \<le> tc \<and>
          (tc = 0 \<longrightarrow> calculate_sgpa subjects = Inr (0, [], 0, 0)) \<and>
          (tc \<noteq> 0 \<longrightarrow>
             calculate_sgpa subjects =
               Inr (py_round (fl (ws / tc)) 2, map point_of (filter included subjects), tc, ws))"
    using ge zero nonzero unfolding Let_def tc_def ws_def inc_def by simp
qed

theorem calculate_sgpa_spec_witness:
  "calculate_sgpa example_subjects =
     Inr (fl (886 / 100), map point_of (filter included example_subjects), 7, 62) \<and>
   map p_code (map point_of (filter included example_subjects)) = [''23CS3CSFM'', ''23CS3PCDBM''] \<and>
   list_all (\<lambda>item. 0 \<le> credit_of item) example_subjects \<and>
   calculate_sgpa [] = Inr (0, [], 0, 0)"
proof -
  have t1: "foldl fadd 0 (map credit_of (filter included example_subjects)) = 7" by code_simp
  have t2: "foldl fadd 0 (map weighted_of (filter included example_subjects)) = 62" by code_simp
  have t3: "py_round (fl (62 / 7)) 2 = fl (886 / 100)" by code_simp
  have t4: "list_all (\<lambda>item. 0 \<le> credit_of item) example_subjects" by code_simp
  have t5: "map p_code (map point_of (filter included example_subjects)) =
      [''23CS3CSFM'', ''23CS3PCDBM'']" by code_simp
  note main = calculate_sgpa_spec [of example_subjects, unfolded Let_def t1 t2]
  have n7: "(7::real) \<noteq> 0" by simp
  have a: "calculate_sgpa example_subjects =
     Inr (fl (886 / 100), map point_of (filter included example_subjects), 7, 62)"
    using main [THEN conjunct2, THEN conjunct2, THEN conjunct2, THEN conjunct2,
                THEN mp, OF t4 [unfolded list_all_iff], THEN conjunct2, THEN conjunct2,
                THEN mp, OF n7]
    unfolding t3 .
  show ?thesis
    by (intro conjI a t5 t4 main [THEN conjunct2, THEN conjunct1])
qed


section \<open>The semester average under permutation\<close>

lemma grade_points_range: "0 \<le> grade_points_get g \<and> grade_points_get g \<le> 10"
proof (cases "map_of GRADE_POINTS g")
  case None
  then show ?thesis by (simp add: grade_points_get_def)
next
  case (Some p)
  then have "(g, p) \<in> set GRADE_POINTS" by (rule map_of_SomeD)
  then have "0 \<le> p \<and> p \<le> 10" by (auto simp: GRADE_POINTS_def)
  then show ?thesis using Some by (simp add: grade_points_get_def)
qed

lemma dyadic_credit_nat:
  assumes "dyadic_credit j c"
  obtains k :: nat where "c = real k / 2 ^ j"
proof -
  have f: "of_int \<lfloor>c * 2 ^ j\<rfloor> = c * 2 ^ j" and nn: "0 \<le> c"
    using assms by (auto simp: dyadic_credit_def)
  have "0 \<le> \<lfloor>c * 2 ^ j\<rfloor>" using nn by simp
  then have "real (nat \<lfloor>c * 2 ^ j\<rfloor>) = c * 2 ^ j" using f by simp
  then have "c = real (nat \<lfloor>c * 2 ^ j\<rfloor>) / 2 ^ j" by simp
  then show ?thesis using that by blast
qed

lemma fl_exact_nat:
  assumes "real k \<le> 2 ^ 53"
  shows "fl (real k / 2 ^ j) = real k / 2 ^ j"
proof (cases "k = 0")
  case True
  then show ?thesis by (simp add: fl_zero)
next
  case False
  then have p: "0 < int k" by simp
  have "real k \<le> real (2 ^ 53)" using assms by simp
  then have "k \<le> 2 ^ 53" by (simp only: of_nat_le_iff)
  then have b: "int k \<le> 2 ^ 53" by (metis of_nat_le_iff of_nat_numeral of_nat_power)
  have "fl (of_int (int k) * 2 powi (- int j)) = of_int (int k) * 2 powi (- int j)"
    using p b by (rule fl_exact)
  then show ?thesis by (simp add: power_int_minus field_simps)
qed

text \<open>Summing multiples of \<open>1 / 2^j\<close> that stay below \<open>2^53\<close> units is exact.\<close>

lemma fsum_exact:
  assumes "\<forall>x\<in>set xs. \<exists>k::nat. x = real k / 2 ^ j"
    and "\<exists>k::nat. acc = real k / 2 ^ j"
    and "(acc + sum_list xs) * 2 ^ j \<le> 2 ^ 53"
  shows "foldl fadd acc xs = acc + sum_list xs"
  using assms
proof (induction xs arbitrary: acc)
  case Nil
  then show ?case by simp
next
  case (Cons x xs)
  obtain k where k: "x = real k / 2 ^ j" using Cons.prems(1) by auto
  obtain K where K: "acc = real K / 2 ^ j" using Cons.prems(2) by auto
  have nn: "0 \<le> sum_list xs"
  proof (rule sum_list_nonneg)
    fix y assume "y \<in> set xs"
    then obtain m :: nat where "y = real m / 2 ^ j" using Cons.prems(1) by auto
    then show "0 \<le> y" by simp
  qed
  have s: "acc + x = real (K + k) / 2 ^ j" using k K by (simp add: add_divide_distrib)
  have "(acc + x) * 2 ^ j \<le> (acc + sum_list (x # xs)) * 2 ^ j"
    using nn by (simp add: mult_right_mono)
  then have "(acc + x) * 2 ^ j \<le> 2 ^ 53" using Cons.prems(3) by linarith
  then have "real (K + k) \<le> 2 ^ 53" unfolding s by simp
  then have e: "fadd acc x = acc + x" unfolding fadd_def s by (rule fl_exact_nat)
  have "foldl fadd (fadd acc x) xs = fadd acc x + sum_list xs"
  proof (rule Cons.IH)
    show "\<forall>x\<in>set xs. \<exists>k::nat. x = real k / 2 ^ j" using Cons.prems(1) by simp
    show "\<exists>k::nat. fadd acc x = real k / 2 ^ j" unfolding e s by blast
    show "(fadd acc x + sum_list xs) * 2 ^ j \<le> 2 ^ 53" unfolding e using Cons.prems(3) by (simp add: add.assoc)
  qed
  then show ?case by (simp add: e add.assoc)
qed

lemma not_included_zero: "\<not> included item \<Longrightarrow> credit_of item = 0"
  by (auto simp: included_def credit_of_def split: option.splits)

lemma sum_filter_included:
  assumes "\<And>item. credit_of item = 0 \<Longrightarrow> f item = 0"
  shows "sum_list (map f (filter included xs)) = sum_list (map f xs)"
  using assms by (induction xs) (auto dest: not_included_zero)

lemma elem_le_sum_list:
  assumes "\<forall>y\<in>set ys. (0::real) \<le> y" and "x \<in> set ys"
  shows "x \<le> sum_list ys"
  using assms
proof (induction ys)
  case Nil
  then show ?case by simp
next
  case (Cons y ys)
  have nn: "0 \<le> sum_list ys" using Cons.prems(1) by (intro sum_list_nonneg) auto
  show ?case
  proof (cases "x = y")
    case True
    then show ?thesis using nn by simp
  next
    case False
    then have "x \<le> sum_list ys" using Cons by auto
    then show ?thesis using Cons.prems(1) by simp
  qed
qed

lemma weighted_exact:
  assumes dy: "dyadic_credit j (credit_of item)"
    and b: "10 * credit_of item * 2 ^ j \<le> 2 ^ 53"
  shows "weighted_of item = exact_weighted item"
    and "\<exists>k::nat. exact_weighted item = real k / 2 ^ j"
    and "0 \<le> exact_weighted item"
    and "exact_weighted item \<le> 10 * credit_of item"
proof -
  obtain k :: nat where k: "credit_of item = real k / 2 ^ j"
    using dy by (rule dyadic_credit_nat)
  define g where "g = nat (grade_points_get (c_grade (snd item)))"
  have gp: "0 \<le> grade_points_get (c_grade (snd item))" "grade_points_get (c_grade (snd item)) \<le> 10"
    using grade_points_range [of "c_grade (snd item)"] by auto
  have g: "real_of_int (grade_points_get (c_grade (snd item))) = real g"
    unfolding g_def using gp by simp
  have g10: "real g \<le> 10" using gp g by linarith
  have e: "exact_weighted item = real (k * g) / 2 ^ j"
    unfolding exact_weighted_def k g by simp
  show form: "\<exists>k::nat. exact_weighted item = real k / 2 ^ j" using e by blast
  show "0 \<le> exact_weighted item" unfolding e by simp
  have cn: "0 \<le> credit_of item" unfolding k by simp
  have "credit_of item * real g \<le> credit_of item * 10"
    using g10 cn by (rule mult_left_mono)
  then show le: "exact_weighted item \<le> 10 * credit_of item"
    unfolding exact_weighted_def g by (simp add: mult.commute)
  have "exact_weighted item * 2 ^ j \<le> 10 * credit_of item * 2 ^ j"
    using le by (rule mult_right_mono) simp
  then have "exact_weighted item * 2 ^ j \<le> 2 ^ 53" using b by (rule order_trans)
  then have "real (k * g) / 2 ^ j * 2 ^ j \<le> 2 ^ 53" unfolding e .
  then have "real (k * g) \<le> 2 ^ 53" by simp
  then have "fl (real (k * g) / 2 ^ j) = real (k * g) / 2 ^ j" by (rule fl_exact_nat)
  then have "fl (exact_weighted item) = exact_weighted item" unfolding e .
  then show "weighted_of item = exact_weighted item"
    unfolding weighted_of_def fmul_def exact_weighted_def .
qed

lemma exact_totals:
  assumes dy: "\<forall>item\<in>set subjects. dyadic_credit j (credit_of item)"
    and bound: "10 * sum_list (map credit_of subjects) * 2 ^ j \<le> 2 ^ 53"
  shows "sgpa_totals (calculate_sgpa subjects) =
     (let T = sum_list (map credit_of subjects);
          W = sum_list (map exact_weighted subjects)
      in Some (if T \<le> 0 then 0 else py_round (fl (W / T)) 2, T, W))"
proof -
  define inc where "inc = filter included subjects"
  define T where "T = sum_list (map credit_of subjects)"
  define W where "W = sum_list (map exact_weighted subjects)"
  have bound': "10 * T * 2 ^ j \<le> 2 ^ 53" using bound unfolding T_def .
  have nn: "0 \<le> credit_of item" if mem: "item \<in> set subjects" for item
    using dy mem by (auto simp: dyadic_credit_def)
  have cnn: "\<forall>y\<in>set (map credit_of subjects). 0 \<le> y" using nn by auto
  have Tnn: "0 \<le> T" unfolding T_def by (rule sum_list_nonneg) (use cnn in blast)
  have p2: "0 \<le> (2::real) ^ j" by simp
  have scale: "x * 2 ^ j \<le> 2 ^ 53" if le: "x \<le> 10 * T" for x :: real
  proof -
    have "x * 2 ^ j \<le> 10 * T * 2 ^ j" using le p2 by (rule mult_right_mono)
    then show ?thesis using bound' by (rule order_trans)
  qed
  have cle: "credit_of item \<le> T" if mem: "item \<in> set subjects" for item
    unfolding T_def using cnn by (rule elem_le_sum_list) (use mem in simp)
  have cb: "10 * credit_of item * 2 ^ j \<le> 2 ^ 53" if mem: "item \<in> set subjects" for item
  proof -
    have "10 * credit_of item \<le> 10 * T" using cle [OF mem] by simp
    then show ?thesis by (rule scale)
  qed
  have wx: "weighted_of item = exact_weighted item"
    and wf: "\<exists>k::nat. exact_weighted item = real k / 2 ^ j"
    and wn: "0 \<le> exact_weighted item"
    and wl: "exact_weighted item \<le> 10 * credit_of item"
    if mem: "item \<in> set subjects" for item
    using weighted_exact [of j item] dy mem cb [OF mem] by blast+
  have Ti: "sum_list (map credit_of inc) = T"
    unfolding inc_def T_def by (rule sum_filter_included) simp
  have Wi: "sum_list (map exact_weighted inc) = W"
    unfolding inc_def W_def by (rule sum_filter_included) (simp add: exact_weighted_def)
  have W_le: "W \<le> 10 * T"
  proof -
    have "sum_list (map exact_weighted subjects) \<le> sum_list (map (\<lambda>i. 10 * credit_of i) subjects)"
      by (rule sum_list_mono) (rule wl)
    also have "\<dots> = 10 * sum_list (map credit_of subjects)"
      by (simp add: sum_list_const_mult)
    finally show ?thesis unfolding W_def T_def .
  qed
  have Tb: "T * 2 ^ j \<le> 2 ^ 53" by (rule scale) (use Tnn in simp)
  have Wb: "W * 2 ^ j \<le> 2 ^ 53" using W_le by (rule scale)
  have sub: "item \<in> set subjects" if "item \<in> set inc" for item
    using that by (simp add: inc_def)
  have z: "\<exists>k::nat. (0::real) = real k / 2 ^ j" by (rule exI [of _ 0]) simp
  have cform: "\<exists>k::nat. credit_of item = real k / 2 ^ j" if mem: "item \<in> set subjects" for item
  proof -
    have "dyadic_credit j (credit_of item)" using dy mem by blast
    then obtain k :: nat where "credit_of item = real k / 2 ^ j" by (rule dyadic_credit_nat)
    then show ?thesis by blast
  qed
  have tc: "foldl fadd 0 (map credit_of inc) = T"
  proof -
    have "foldl fadd 0 (map credit_of inc) = 0 + sum_list (map credit_of inc)"
    proof (rule fsum_exact)
      show "\<forall>x\<in>set (map credit_of inc). \<exists>k::nat. x = real k / 2 ^ j"
        using cform sub by auto
      show "\<exists>k::nat. (0::real) = real k / 2 ^ j" by (rule z)
      show "(0 + sum_list (map credit_of inc)) * 2 ^ j \<le> 2 ^ 53" using Tb by (simp add: Ti)
    qed
    then show ?thesis by (simp add: Ti)
  qed
  have m: "map weighted_of inc = map exact_weighted inc"
    by (rule map_cong) (simp_all add: wx sub)
  have ws: "foldl fadd 0 (map weighted_of inc) = W"
  proof -
    have "foldl fadd 0 (map exact_weighted inc) = 0 + sum_list (map exact_weighted inc)"
    proof (rule fsum_exact)
      show "\<forall>x\<in>set (map exact_weighted inc). \<exists>k::nat. x = real k / 2 ^ j"
        using wf sub by auto
      show "\<exists>k::nat. (0::real) = real k / 2 ^ j" by (rule z)
      show "(0 + sum_list (map exact_weighted inc)) * 2 ^ j \<le> 2 ^ 53" using Wb by (simp add: Wi)
    qed
    then show ?thesis by (simp add: m Wi)
  qed
  have loop: "foldl sgpa_step (0, 0, []) subjects = (T, W, map point_of inc)"
    using sgpa_loop_char [of 0 0 "[]" subjects] unfolding inc_def [symmetric] tc ws by simp
  have "sgpa_totals (calculate_sgpa subjects) =
      Some (if T \<le> 0 then 0 else py_round (fl (W / T)) 2, T, W)"
    unfolding calculate_sgpa_def loop by (simp add: sgpa_totals_def fdiv_def)
  then show ?thesis unfolding T_def W_def Let_def .
qed

lemma sum_list_map_mset:
  assumes "mset xs = mset ys"
  shows "sum_list (map f xs) = sum_list (map (f :: 'a \<Rightarrow> real) ys)"
proof -
  have "mset (map f xs) = mset (map f ys)" by (simp add: assms)
  then have "sum_mset (mset (map f xs)) = sum_mset (mset (map f ys))" by (rule arg_cong)
  then show ?thesis by (simp only: sum_mset_sum_list)
qed

lemma sgpa_total_credits:
  "map_option (fst \<circ> snd) (sgpa_totals (calculate_sgpa subjects)) =
     Some (foldl fadd 0 (map credit_of (filter included subjects)))"
  using sgpa_loop_char [of 0 0 "[]" subjects]
  by (simp add: calculate_sgpa_def sgpa_totals_def fdiv_def)

text \<open>
  Claim C8, as the specification states it: reordering the subjects yields the identical
  sgpa, total credits and weighted sum.  The credits are floats and the totals are float
  sums, which depend on the order: for the credits \<open>0.1\<close>, \<open>0.2\<close>, \<open>0.3\<close> the total is
  \<open>0.6000000000000001\<close>, and for the same subjects in the reverse order it is \<open>0.6\<close>.
\<close>

theorem calculate_sgpa_permutation_counterexample:
  "mset (rev tenths_subjects) = mset tenths_subjects \<and>
   map (the \<circ> c_credit \<circ> snd) tenths_subjects = [fl (1 / 10), fl (2 / 10), fl (3 / 10)] \<and>
   map_option (fst \<circ> snd) (sgpa_totals (calculate_sgpa tenths_subjects)) =
     Some (5404319552844596 / 9007199254740992) \<and>
   map_option (fst \<circ> snd) (sgpa_totals (calculate_sgpa (rev tenths_subjects))) =
     Some (5404319552844595 / 9007199254740992)"
proof -
  have v: "fl (1 / 10) = 3602879701896397 / 36028797018963968"
      "fl (2 / 10) = 3602879701896397 / 18014398509481984"
      "fl (3 / 10) = 5404319552844595 / 18014398509481984"
    by (simp_all add: float_eval)
  have cr: "map (the \<circ> c_credit \<circ> snd) tenths_subjects = [fl (1 / 10), fl (2 / 10), fl (3 / 10)]"
    unfolding v by (simp add: tenths_subjects_def)
  have c1: "map credit_of (filter included tenths_subjects) =
      [3602879701896397 / 36028797018963968, 3602879701896397 / 18014398509481984,
       5404319552844595 / 18014398509481984]"
    by (simp add: tenths_subjects_def credit_of_def included_def)
  have c2: "map credit_of (filter included (rev tenths_subjects)) =
      [5404319552844595 / 18014398509481984, 3602879701896397 / 18014398509481984,
       3602879701896397 / 36028797018963968]"
    by (simp add: tenths_subjects_def credit_of_def included_def)
  have s1: "foldl fadd 0 [3602879701896397 / 36028797018963968,
        3602879701896397 / 18014398509481984, 5404319552844595 / 18014398509481984] =
      5404319552844596 / 9007199254740992"
    by (simp add: float_eval)
  have s2: "foldl fadd 0 [5404319552844595 / 18014398509481984,
        3602879701896397 / 18014398509481984, 3602879701896397 / 36028797018963968] =
      5404319552844595 / 9007199254740992"
    by (simp add: float_eval)
  have a: "map_option (fst \<circ> snd) (sgpa_totals (calculate_sgpa tenths_subjects)) =
      Some (5404319552844596 / 9007199254740992)"
    unfolding sgpa_total_credits c1 s1 ..
  have b: "map_option (fst \<circ> snd) (sgpa_totals (calculate_sgpa (rev tenths_subjects))) =
      Some (5404319552844595 / 9007199254740992)"
    unfolding sgpa_total_credits c2 s2 ..
  have m: "mset (rev tenths_subjects) = mset tenths_subjects" by simp
  show ?thesis using m cr a b by blast
qed

text \<open>
  Claim C8, amended: reordering the subjects yields the identical sgpa, total credits and
  weighted sum whenever the float sums are exact, which holds when every credit is a
  non-negative multiple of \<open>1 / 2^j\<close> for some \<open>j\<close> (whole and half credits, for
  example) and ten times the total of the credits, in units of \<open>1 / 2^j\<close>, is at most
  \<open>2^53\<close>.
\<close>

theorem calculate_sgpa_permutation:
  assumes "mset subjects' = mset subjects"
    and "\<forall>item\<in>set subjects. dyadic_credit j (credit_of item)"
    and "10 * sum_list (map credit_of subjects) * 2 ^ j \<le> 2 ^ 53"
  shows "sgpa_totals (calculate_sgpa subjects') = sgpa_totals (calculate_sgpa subjects)"
proof -
  have s: "set subjects' = set subjects" using assms(1) by (rule mset_eq_setD)
  have T: "sum_list (map credit_of subjects') = sum_list (map credit_of subjects)"
    using assms(1) by (rule sum_list_map_mset)
  have W: "sum_list (map exact_weighted subjects') = sum_list (map exact_weighted subjects)"
    using assms(1) by (rule sum_list_map_mset)
  have a: "sgpa_totals (calculate_sgpa subjects) =
     (let T = sum_list (map credit_of subjects);
          W = sum_list (map exact_weighted subjects)
      in Some (if T \<le> 0 then 0 else py_round (fl (W / T)) 2, T, W))"
    using assms(2,3) by (rule exact_totals)
  have dy': "\<forall>item\<in>set subjects'. dyadic_credit j (credit_of item)"
    using assms(2) unfolding s .
  have b': "10 * sum_list (map credit_of subjects') * 2 ^ j \<le> 2 ^ 53"
    using assms(3) unfolding T .
  have b: "sgpa_totals (calculate_sgpa subjects') =
     (let T = sum_list (map credit_of subjects');
          W = sum_list (map exact_weighted subjects')
      in Some (if T \<le> 0 then 0 else py_round (fl (W / T)) 2, T, W))"
    using dy' b' by (rule exact_totals)
  show ?thesis unfolding a b T W ..
qed

theorem calculate_sgpa_permutation_witness:
  "mset (rev halves_subjects) = mset halves_subjects \<and>
   list_all (\<lambda>item. dyadic_credit 1 (credit_of item)) halves_subjects \<and>
   10 * sum_list (map credit_of halves_subjects) * 2 ^ 1 \<le> 2 ^ 53 \<and>
   sgpa_totals (calculate_sgpa (rev halves_subjects)) = sgpa_totals (calculate_sgpa halves_subjects) \<and>
   sgpa_totals (calculate_sgpa halves_subjects) = Some (fl (842 / 100), 6, 101 / 2)"
proof -
  have d: "list_all (\<lambda>item. dyadic_credit 1 (credit_of item)) halves_subjects"
    by (simp add: halves_subjects_def dyadic_credit_def credit_of_def)
  have T: "sum_list (map credit_of halves_subjects) = 6"
    by (simp add: halves_subjects_def credit_of_def)
  have W: "sum_list (map exact_weighted halves_subjects) = 101 / 2"
    by (simp add: halves_subjects_def exact_weighted_def credit_of_def grade_points_get_def
        GRADE_POINTS_def)
  have b: "10 * sum_list (map credit_of halves_subjects) * 2 ^ 1 \<le> 2 ^ 53"
    unfolding T by simp
  have r: "py_round (fl ((101 / 2) / 6)) 2 = fl (842 / 100)"
    by (simp add: float_eval)
  have d': "\<forall>item\<in>set halves_subjects. dyadic_credit 1 (credit_of item)"
    using d by (simp add: list_all_iff)
  have v: "sgpa_totals (calculate_sgpa halves_subjects) = Some (fl (842 / 100), 6, 101 / 2)"
    using exact_totals [OF d' b] unfolding T W Let_def r by simp
  have m: "mset (rev halves_subjects) = mset halves_subjects" by simp
  have e: "sgpa_totals (calculate_sgpa (rev halves_subjects)) =
      sgpa_totals (calculate_sgpa halves_subjects)"
    using m d' b by (rule calculate_sgpa_permutation)
  show ?thesis using m d b e v by blast
qed

section \<open>The cumulative average\<close>

lemma get_num_numeric:
  "is_num (d k) \<Longrightarrow> get_num d k = Inr (case d k of Some (Num x) \<Rightarrow> x | _ \<Rightarrow> 0)"
  by (auto simp: is_num_def get_num_def split: option.splits pyval.splits)

lemma running_cgpa_value: "running_cgpa p c = Inr (cgpa_value p c)"
  by (simp add: running_cgpa_def cgpa_value_def fdiv_def)

lemma overall_percentage_returns: "\<exists>q. overall_percentage_of p c = Inr q"
proof (cases "0 < c")
  case True
  then have "0 < c * 10" by simp
  then have "0 < fl (c * 10)" by (rule fl_pos)
  then have "fmul c 10 \<noteq> 0" by (simp add: fmul_def)
  then show ?thesis using True by (simp add: overall_percentage_of_def fdiv_def)
next
  case False
  then show ?thesis by (simp add: overall_percentage_of_def)
qed

text \<open>Writing the key \<open>cgpa\<close> leaves the other fields of every record as they are.\<close>

lemma num_field_write:
  "k \<noteq> ''cgpa'' \<Longrightarrow> num_field (h(a := (h a)(''cgpa'' \<mapsto> v))) k b = num_field h k b"
  by (simp add: num_field_def)

lemma numeric_record_write:
  "numeric_record (h(a := (h a)(''cgpa'' \<mapsto> v))) b = numeric_record h b"
  by (simp add: numeric_record_def)

lemma cgpa_loop_frame:
  "cgpa_loop sd items (cc, cp, sc, h) = Inr (cc', cp', sc', h') \<Longrightarrow>
     (\<forall>a k. k \<noteq> ''cgpa'' \<longrightarrow> h' a k = h a k) \<and> (\<forall>a. a \<notin> snd ` set sd \<longrightarrow> h' a = h a)"
proof (induction items arbitrary: cc cp sc h)
  case Nil
  then show ?case by simp
next
  case (Cons item items)
  obtain sem_id data where item: "item = (sem_id, data)" by (cases item)
  from Cons.prems obtain tc tp cgpa a where
      a: "map_of sd sem_id = Some a"
      and rest: "cgpa_loop sd items (fadd cc tc, fadd cp tp, dict_set sc sem_id cgpa,
          h(a := (h a)(''cgpa'' \<mapsto> Num cgpa))) = Inr (cc', cp', sc', h')"
    unfolding item by (auto simp: Let_def split: sum.splits option.splits)
  have mem: "a \<in> snd ` set sd" using a by (metis map_of_SomeD image_eqI snd_conv)
  have ih: "(\<forall>b k. k \<noteq> ''cgpa'' \<longrightarrow> h' b k = (h(a := (h a)(''cgpa'' \<mapsto> Num cgpa))) b k) \<and>
      (\<forall>b. b \<notin> snd ` set sd \<longrightarrow> h' b = (h(a := (h a)(''cgpa'' \<mapsto> Num cgpa))) b)"
    using rest by (rule Cons.IH)
  show ?case
  proof (intro conjI allI impI)
    fix b k assume "k \<noteq> ''cgpa''"
    then show "h' b k = h b k" using ih by simp
  next
    fix b assume "b \<notin> snd ` set sd"
    then show "h' b = h b" using ih mem by auto
  qed
qed

lemma map_of_dict_set: "map_of (dict_set d k v) = (map_of d)(k \<mapsto> v)"
  by (induction d) (auto simp: fun_eq_iff)

lemma cgpa_loop_run:
  assumes "\<forall>item\<in>set items. numeric_record h (snd item) \<and> map_of sd (fst item) = Some (snd item)"
  shows "\<exists>sc' h'.
     cgpa_loop sd items (cc, cp, sc, h) =
       Inr (foldl fadd cc (map (\<lambda>i. num_field h ''total_credits'' (snd i)) items),
            foldl fadd cp (map (\<lambda>i. num_field h ''total_points'' (snd i)) items), sc', h') \<and>
     (items \<noteq> [] \<longrightarrow>
        h' (snd (last items)) ''cgpa'' =
          Some (Num (cgpa_value
            (foldl fadd cp (map (\<lambda>i. num_field h ''total_points'' (snd i)) items))
            (foldl fadd cc (map (\<lambda>i. num_field h ''total_credits'' (snd i)) items)))) \<and>
        map_of sc' (fst (last items)) =
          Some (cgpa_value
            (foldl fadd cp (map (\<lambda>i. num_field h ''total_points'' (snd i)) items))
            (foldl fadd cc (map (\<lambda>i. num_field h ''total_credits'' (snd i)) items))))"
  using assms
proof (induction items arbitrary: cc cp sc h)
  case Nil
  then show ?case by simp
next
  case (Cons item items)
  obtain sem_id a where item: "item = (sem_id, a)" by (cases item)
  have nr: "numeric_record h a" and mo: "map_of sd sem_id = Some a"
    using Cons.prems unfolding item by auto
  define tc where "tc = num_field h ''total_credits'' a"
  define tp where "tp = num_field h ''total_points'' a"
  define cgpa where "cgpa = cgpa_value (fadd cp tp) (fadd cc tc)"
  define h1 where "h1 = h(a := (h a)(''cgpa'' \<mapsto> Num cgpa))"
  define sc1 where "sc1 = dict_set sc sem_id cgpa"
  have g1: "get_num (h a) ''total_credits'' = Inr tc"
    using nr by (simp add: numeric_record_def get_num_numeric tc_def num_field_def)
  have g2: "get_num (h a) ''total_points'' = Inr tp"
    using nr by (simp add: numeric_record_def get_num_numeric tp_def num_field_def)
  have step: "cgpa_loop sd (item # items) (cc, cp, sc, h) =
      cgpa_loop sd items (fadd cc tc, fadd cp tp, sc1, h1)"
    unfolding item by (simp add: g1 g2 running_cgpa_value mo Let_def cgpa_def h1_def sc1_def)
  have wf1: "\<forall>item\<in>set items. numeric_record h1 (snd item) \<and>
      map_of sd (fst item) = Some (snd item)"
    using Cons.prems unfolding h1_def by (simp add: numeric_record_write)
  have f1: "num_field h1 ''total_credits'' b = num_field h ''total_credits'' b" for b
    unfolding h1_def by (rule num_field_write) simp
  have f2: "num_field h1 ''total_points'' b = num_field h ''total_points'' b" for b
    unfolding h1_def by (rule num_field_write) simp
  obtain sc' h' where
    run: "cgpa_loop sd items (fadd cc tc, fadd cp tp, sc1, h1) =
       Inr (foldl fadd (fadd cc tc) (map (\<lambda>i. num_field h ''total_credits'' (snd i)) items),
            foldl fadd (fadd cp tp) (map (\<lambda>i. num_field h ''total_points'' (snd i)) items), sc', h')"
    and lst: "items \<noteq> [] \<longrightarrow>
        h' (snd (last items)) ''cgpa'' =
          Some (Num (cgpa_value
            (foldl fadd (fadd cp tp) (map (\<lambda>i. num_field h ''total_points'' (snd i)) items))
            (foldl fadd (fadd cc tc) (map (\<lambda>i. num_field h ''total_credits'' (snd i)) items)))) \<and>
        map_of sc' (fst (last items)) =
          Some (cgpa_value
            (foldl fadd (fadd cp tp) (map (\<lambda>i. num_field h ''total_points'' (snd i)) items))
            (foldl fadd (fadd cc tc) (map (\<lambda>i. num_field h ''total_credits'' (snd i)) items)))"
    using Cons.IH [OF wf1, of "fadd cc tc" "fadd cp tp" sc1] unfolding f1 f2 by blast
  show ?case
  proof (cases "items = []")
    case True
    have w: "h1 a ''cgpa'' = Some (Num cgpa)" by (simp add: h1_def)
    have m: "map_of sc1 sem_id = Some cgpa" by (simp add: sc1_def map_of_dict_set)
    have r: "cgpa_loop sd (item # items) (cc, cp, sc, h) = Inr (fadd cc tc, fadd cp tp, sc1, h1)"
      using step True by simp
    show ?thesis
      apply (rule exI [of _ sc1])
      apply (rule exI [of _ h1])
      using r w m True by (simp add: item tc_def tp_def cgpa_def)
  next
    case False
    then show ?thesis
      unfolding step using run lst by (simp add: item tc_def tp_def)
  qed
qed

lemma fsum_nonneg_fixed:
  assumes "\<forall>x\<in>set xs. 0 \<le> x"
  shows "0 \<le> foldl fadd 0 xs \<and> fl (foldl fadd 0 xs) = foldl fadd 0 xs"
  using assms
proof (induction xs rule: rev_induct)
  case Nil
  then show ?case by (simp add: fl_zero)
next
  case (snoc x xs)
  have ih: "0 \<le> foldl fadd 0 xs" using snoc by simp
  have x: "0 \<le> x" using snoc.prems by simp
  have "0 \<le> foldl fadd 0 xs + x" using ih x by simp
  then have "0 \<le> fl (foldl fadd 0 xs + x) \<and> fl (fl (foldl fadd 0 xs + x)) = fl (foldl fadd 0 xs + x)"
    by (simp add: fl_nonneg fl_idem_nonneg)
  moreover have "foldl fadd 0 (xs @ [x]) = fl (foldl fadd 0 xs + x)"
    using fadd_def [of "foldl fadd 0 xs" x] by simp
  ultimately show ?case by simp
qed

lemma cumulative_Suc:
  assumes "n < length items"
  shows "cumulative h k items (Suc n) = fadd (cumulative h k items n) (num_field h k (snd (items ! n)))"
  using assms by (simp add: cumulative_def take_Suc_conv_app_nth)

lemma cumulative_mono:
  assumes "\<forall>item\<in>set items. 0 \<le> num_field h k (snd item)" and "n < length items"
  shows "cumulative h k items n \<le> cumulative h k items (Suc n)"
proof -
  have "\<forall>x\<in>set (map (\<lambda>item. num_field h k (snd item)) (take n items)). 0 \<le> x"
    using assms(1) by (auto dest: in_set_takeD)
  then have c: "0 \<le> cumulative h k items n" "fl (cumulative h k items n) = cumulative h k items n"
    unfolding cumulative_def using fsum_nonneg_fixed by blast+
  have "0 \<le> num_field h k (snd (items ! n))" using assms by simp
  then have "cumulative h k items n \<le> fadd (cumulative h k items n) (num_field h k (snd (items ! n)))"
    using c by (intro fadd_ge_left)
  then show ?thesis unfolding cumulative_Suc [OF assms(2), of h k] .
qed

lemma last_take_nth:
  assumes "0 < n" and "n \<le> length xs"
  shows "take n xs \<noteq> []" and "last (take n xs) = xs ! (n - 1)"
proof -
  show ne: "take n xs \<noteq> []" using assms by auto
  have "last (take n xs) = take n xs ! (length (take n xs) - 1)" using ne by (rule last_conv_nth)
  also have "\<dots> = take n xs ! (n - 1)" using assms by simp
  also have "\<dots> = xs ! (n - 1)" using assms by simp
  finally show "last (take n xs) = xs ! (n - 1)" .
qed

lemma cgpa_prefix_run:
  assumes d: "distinct (map fst semester_data)"
    and nr: "\<forall>item\<in>set semester_data. numeric_record h (snd item)"
    and sub: "set items \<subseteq> set semester_data"
    and n: "n \<le> length items"
  shows "\<exists>sc h'.
     cgpa_loop semester_data (take n items) (0, 0, [], h) =
       Inr (cumulative h ''total_credits'' items n, cumulative h ''total_points'' items n, sc, h') \<and>
     (0 < n \<longrightarrow>
        h' (snd (items ! (n - 1))) ''cgpa'' =
          Some (Num (cgpa_value (cumulative h ''total_points'' items n)
                                (cumulative h ''total_credits'' items n))))"
proof -
  have wf: "\<forall>item\<in>set (take n items).
      numeric_record h (snd item) \<and> map_of semester_data (fst item) = Some (snd item)"
  proof
    fix item assume "item \<in> set (take n items)"
    then have m: "item \<in> set semester_data" using sub by (auto dest: in_set_takeD)
    then have "(fst item, snd item) \<in> set semester_data" by simp
    then have "map_of semester_data (fst item) = Some (snd item)"
      using d by (rule map_of_is_SomeI [rotated])
    then show "numeric_record h (snd item) \<and> map_of semester_data (fst item) = Some (snd item)"
      using nr m by simp
  qed
  obtain sc h' where
    run: "cgpa_loop semester_data (take n items) (0, 0, [], h) =
       Inr (foldl fadd 0 (map (\<lambda>i. num_field h ''total_credits'' (snd i)) (take n items)),
            foldl fadd 0 (map (\<lambda>i. num_field h ''total_points'' (snd i)) (take n items)), sc, h')"
    and lst: "take n items \<noteq> [] \<longrightarrow>
        h' (snd (last (take n items))) ''cgpa'' =
          Some (Num (cgpa_value
            (foldl fadd 0 (map (\<lambda>i. num_field h ''total_points'' (snd i)) (take n items)))
            (foldl fadd 0 (map (\<lambda>i. num_field h ''total_credits'' (snd i)) (take n items)))))"
    using cgpa_loop_run [OF wf, of 0 0 "[]"] by blast
  show ?thesis
  proof (intro exI conjI impI)
    show "cgpa_loop semester_data (take n items) (0, 0, [], h) =
       Inr (cumulative h ''total_credits'' items n, cumulative h ''total_points'' items n, sc, h')"
      using run by (simp add: cumulative_def)
    assume pos: "0 < n"
    show "h' (snd (items ! (n - 1))) ''cgpa'' =
          Some (Num (cgpa_value (cumulative h ''total_points'' items n)
                                (cumulative h ''total_credits'' items n)))"
      using lst last_take_nth [OF pos n] by (simp add: cumulative_def)
  qed
qed

lemma cgpa_loop_written:
  "cgpa_loop sd items (cc, cp, sc, h) = Inr (cc', cp', sc', h') \<Longrightarrow>
     (\<forall>a. is_num (h a ''cgpa'') \<longrightarrow> is_num (h' a ''cgpa'')) \<and>
     (\<forall>item\<in>set items. \<forall>a. map_of sd (fst item) = Some a \<longrightarrow> is_num (h' a ''cgpa''))"
proof (induction items arbitrary: cc cp sc h)
  case Nil
  then show ?case by simp
next
  case (Cons item items)
  obtain sem_id data where item: "item = (sem_id, data)" by (cases item)
  from Cons.prems obtain tc tp cgpa a where
      a: "map_of sd sem_id = Some a"
      and rest: "cgpa_loop sd items (fadd cc tc, fadd cp tp, dict_set sc sem_id cgpa,
          h(a := (h a)(''cgpa'' \<mapsto> Num cgpa))) = Inr (cc', cp', sc', h')"
    unfolding item by (auto simp: Let_def split: sum.splits option.splits)
  let ?h1 = "h(a := (h a)(''cgpa'' \<mapsto> Num cgpa))"
  have ih: "(\<forall>b. is_num (?h1 b ''cgpa'') \<longrightarrow> is_num (h' b ''cgpa'')) \<and>
     (\<forall>item\<in>set items. \<forall>b. map_of sd (fst item) = Some b \<longrightarrow> is_num (h' b ''cgpa''))"
    using rest by (rule Cons.IH)
  have w: "is_num (?h1 a ''cgpa'')" by (simp add: is_num_def)
  have keep: "is_num (h b ''cgpa'') \<Longrightarrow> is_num (?h1 b ''cgpa'')" for b
    by (simp add: is_num_def)
  show ?case
  proof (intro conjI allI impI ballI)
    fix b assume "is_num (h b ''cgpa'')"
    then show "is_num (h' b ''cgpa'')" using ih keep by blast
  next
    fix it b assume i: "it \<in> set (item # items)" and b: "map_of sd (fst it) = Some b"
    show "is_num (h' b ''cgpa'')"
    proof (cases "it = item")
      case True
      then have "b = a" using a b item by simp
      then show ?thesis using ih w by blast
    next
      case False
      then have "it \<in> set items" using i by simp
      then show ?thesis using ih b by blast
    qed
  qed
qed

lemma ex_sorted: "sort_key fst example_semesters = [(1, 10), (2, 11)]"
  by (simp add: example_semesters_def)

lemma ex_distinct: "distinct (map fst example_semesters)"
  by (simp add: example_semesters_def)

lemma ex_numeric: "list_all (\<lambda>item. numeric_record example_store (snd item)) example_semesters"
  by (simp add: example_semesters_def example_store_def numeric_record_def is_num_def)

lemma ex_fields:
  "num_field example_store ''total_credits'' 10 = 20"
  "num_field example_store ''total_credits'' 11 = 22"
  "num_field example_store ''total_points'' 10 = 160"
  "num_field example_store ''total_points'' 11 = 198"
  by (simp_all add: num_field_def example_store_def)

lemma ex_cum:
  "cumulative example_store ''total_credits'' [(1, 10), (2, 11)] 1 = 20"
  "cumulative example_store ''total_credits'' [(1, 10), (2, 11)] 2 = 42"
  "cumulative example_store ''total_points'' [(1, 10), (2, 11)] 1 = 160"
  "cumulative example_store ''total_points'' [(1, 10), (2, 11)] 2 = 358"
  unfolding cumulative_def by (simp_all add: ex_fields float_eval)

lemma ex_vals: "cgpa_value 160 20 = 8" "cgpa_value 358 42 = fl (852 / 100)"
  by (simp_all add: cgpa_value_def float_eval)

lemma ex_run:
  "calculate_cgpa example_store example_semesters =
     Inr (fl (852 / 100), example_semesters,
          \<lparr>sm_total_credits = 42, sm_total_points = 358, sm_max_possible_points = 420,
           sm_overall_percentage = fl (8524 / 100)\<rparr>,
          example_store
            (10 := (example_store 10)(''cgpa'' \<mapsto> Num 8),
             11 := (example_store 11)(''cgpa'' \<mapsto> Num (fl (852 / 100)))))"
proof -
  have g: "get_num (example_store 10) ''total_credits'' = Inr 20"
      "get_num (example_store 10) ''total_points'' = Inr 160"
      "get_num (example_store 11) ''total_credits'' = Inr 22"
      "get_num (example_store 11) ''total_points'' = Inr 198"
    by (simp_all add: get_num_def example_store_def)
  have a: "fadd 0 20 = 20" "fadd 0 160 = 160" "fadd 20 22 = 42" "fadd 160 198 = 358"
    by (simp_all add: float_eval)
  have r: "running_cgpa 160 20 = Inr 8" "running_cgpa 358 42 = Inr (fl (852 / 100))"
    by (simp_all add: running_cgpa_value ex_vals)
  have p: "overall_percentage_of 358 42 = Inr (fl (8524 / 100))"
    by (simp add: overall_percentage_of_def float_eval)
  have s: "py_round 42 (Suc 0) = 42" "py_round 358 (Suc 0) = 358"
      "py_round (fmul 42 10) (Suc 0) = 420"
    by (simp_all add: float_eval)
  have m: "map_of example_semesters 1 = Some 10" "map_of example_semesters 2 = Some 11"
    by (simp_all add: example_semesters_def)
  have h2: "get_num ((example_store(10 := (example_store 10)(''cgpa'' \<mapsto> Num 8))) 11) k =
      get_num (example_store 11) k" for k
    by simp
  show ?thesis
    unfolding calculate_cgpa_def Let_def ex_sorted
    by (simp add: g a r p s m h2)
qed

lemma overall_percentage_value: "overall_percentage_of p c = Inr (percentage_value p c)"
proof (cases "0 < c")
  case True
  then have "0 < c * 10" by simp
  then have "0 < fl (c * 10)" by (rule fl_pos)
  then have "fmul c 10 \<noteq> 0" by (simp add: fmul_def)
  then show ?thesis using True
    by (simp add: overall_percentage_of_def percentage_value_def fdiv_def)
next
  case False
  then show ?thesis by (simp add: overall_percentage_of_def percentage_value_def)
qed

lemma cgpa_loop_append:
  "cgpa_loop sd (xs @ ys) st =
     (case cgpa_loop sd xs st of Inl e \<Rightarrow> Inl e | Inr st' \<Rightarrow> cgpa_loop sd ys st')"
proof (induction xs arbitrary: st)
  case Nil
  show ?case by simp
next
  case (Cons x xs)
  obtain sem_id data where x: "x = (sem_id, data)" by (cases x)
  obtain cc cp sc h where st: "st = (cc, cp, sc, h)" by (cases st)
  show ?case unfolding x st
    by (simp add: Cons.IH Let_def split: sum.splits option.splits)
qed

lemma store_after_frame:
  "k \<noteq> ''cgpa'' \<Longrightarrow> store_after h items n a k = h a k"
  by (induction n arbitrary: a) simp_all

lemma store_after_num_field:
  "k \<noteq> ''cgpa'' \<Longrightarrow> num_field (store_after h items n) k a = num_field h k a"
  by (simp add: num_field_def store_after_frame)

lemma cgpa_loop_one:
  assumes "numeric_record h a" and "map_of sd sem_id = Some a"
  shows "cgpa_loop sd [(sem_id, a)] (cc, cp, sc, h) =
     Inr (fadd cc (num_field h ''total_credits'' a), fadd cp (num_field h ''total_points'' a),
          dict_set sc sem_id (cgpa_value (fadd cp (num_field h ''total_points'' a))
                                (fadd cc (num_field h ''total_credits'' a))),
          h(a := (h a)(''cgpa'' \<mapsto> Num (cgpa_value (fadd cp (num_field h ''total_points'' a))
                                (fadd cc (num_field h ''total_credits'' a))))))"
proof -
  have g1: "get_num (h a) ''total_credits'' = Inr (num_field h ''total_credits'' a)"
    using assms(1) by (simp add: numeric_record_def get_num_numeric num_field_def)
  have g2: "get_num (h a) ''total_points'' = Inr (num_field h ''total_points'' a)"
    using assms(1) by (simp add: numeric_record_def get_num_numeric num_field_def)
  show ?thesis
    by (simp add: g1 g2 running_cgpa_value assms(2) Let_def)
qed

lemma cgpa_prefix_exact:
  assumes d: "distinct (map fst semester_data)"
    and nr: "\<forall>item\<in>set semester_data. numeric_record h (snd item)"
    and sub: "set items \<subseteq> set semester_data"
    and n: "n \<le> length items"
  shows "cgpa_loop semester_data (take n items) (0, 0, [], h) =
       Inr (cumulative h ''total_credits'' items n, cumulative h ''total_points'' items n,
            cgpa_after h items n, store_after h items n)"
  using n
proof (induction n)
  case 0
  show ?case by (simp add: cumulative_def)
next
  case (Suc n)
  have lt: "n < length items" using Suc.prems by simp
  obtain sem_id a where item: "items ! n = (sem_id, a)" by (cases "items ! n")
  have mem: "(sem_id, a) \<in> set semester_data"
    using sub lt item by (metis nth_mem subsetD)
  have mo: "map_of semester_data sem_id = Some a"
    using d mem by (rule map_of_is_SomeI)
  have nrh: "numeric_record h a" using nr mem by auto
  have nra: "numeric_record (store_after h items n) a"
    using nrh by (simp add: numeric_record_def store_after_frame)
  have tk: "take (Suc n) items = take n items @ [(sem_id, a)]"
    using lt item by (simp add: take_Suc_conv_app_nth)
  have ih: "cgpa_loop semester_data (take n items) (0, 0, [], h) =
       Inr (cumulative h ''total_credits'' items n, cumulative h ''total_points'' items n,
            cgpa_after h items n, store_after h items n)"
    using Suc.IH lt by simp
  have f1: "num_field (store_after h items n) ''total_credits'' a = num_field h ''total_credits'' a"
    by (rule store_after_num_field) simp
  have f2: "num_field (store_after h items n) ''total_points'' a = num_field h ''total_points'' a"
    by (rule store_after_num_field) simp
  have c1: "fadd (cumulative h ''total_credits'' items n) (num_field h ''total_credits'' a) =
            cumulative h ''total_credits'' items (Suc n)"
    using cumulative_Suc [OF lt, of h "''total_credits''"] item by simp
  have c2: "fadd (cumulative h ''total_points'' items n) (num_field h ''total_points'' a) =
            cumulative h ''total_points'' items (Suc n)"
    using cumulative_Suc [OF lt, of h "''total_points''"] item by simp
  have one: "cgpa_loop semester_data [(sem_id, a)]
        (cumulative h ''total_credits'' items n, cumulative h ''total_points'' items n,
         cgpa_after h items n, store_after h items n) =
      Inr (cumulative h ''total_credits'' items (Suc n), cumulative h ''total_points'' items (Suc n),
           cgpa_after h items (Suc n), store_after h items (Suc n))"
    unfolding cgpa_loop_one [OF nra mo] f1 f2 c1 c2
    by (simp add: running_value_def item)
  show ?case by (simp only: tk cgpa_loop_append ih sum.case one)
qed

lemma store_after_value:
  assumes "n < m" and "m \<le> length items"
    and "\<forall>j. n < j \<and> j < m \<longrightarrow> snd (items ! j) \<noteq> snd (items ! n)"
  shows "store_after h items m (snd (items ! n)) ''cgpa'' = Some (Num (running_value h items (Suc n)))"
  using assms
proof (induction m)
  case 0
  then show ?case by simp
next
  case (Suc m)
  show ?case
  proof (cases "n = m")
    case True
    then show ?thesis by simp
  next
    case False
    then have nm: "n < m" using Suc.prems(1) by simp
    have ne: "snd (items ! m) \<noteq> snd (items ! n)" using Suc.prems(3) nm by simp
    have "store_after h items m (snd (items ! n)) ''cgpa'' =
          Some (Num (running_value h items (Suc n)))"
      using Suc.IH nm Suc.prems by simp
    then show ?thesis using ne by simp
  qed
qed

lemma cgpa_after_value:
  assumes "n < m" and "m \<le> length items" and "distinct (map fst items)"
  shows "map_of (cgpa_after h items m) (fst (items ! n)) = Some (running_value h items (Suc n))"
  using assms(1,2)
proof (induction m)
  case 0
  then show ?case by simp
next
  case (Suc m)
  show ?case
  proof (cases "n = m")
    case True
    then show ?thesis by (simp add: map_of_dict_set)
  next
    case False
    then have nm: "n < m" using Suc.prems(1) by simp
    have lm: "m < length (map fst items)" and ln: "n < length (map fst items)"
      using nm Suc.prems(2) by simp_all
    have "(map fst items ! m = map fst items ! n) = (m = n)"
      by (rule nth_eq_iff_index_eq [OF assms(3) lm ln])
    then have ne: "fst (items ! m) \<noteq> fst (items ! n)" using nm lm ln by simp
    have "map_of (cgpa_after h items m) (fst (items ! n)) = Some (running_value h items (Suc n))"
      using Suc.IH nm Suc.prems by simp
    then show ?thesis using ne by (simp add: map_of_dict_set)
  qed
qed

lemma cumulative_nonneg:
  assumes "\<forall>item\<in>set items. 0 \<le> num_field h k (snd item)"
  shows "0 \<le> cumulative h k items n"
proof -
  have "\<forall>x\<in>set (map (\<lambda>item. num_field h k (snd item)) (take n items)). 0 \<le> x"
    using assms by (auto dest: in_set_takeD)
  then show ?thesis unfolding cumulative_def using fsum_nonneg_fixed by blast
qed

lemma calculate_cgpa_exact:
  assumes d: "distinct (map fst semester_data)"
    and nr: "\<forall>item\<in>set semester_data. numeric_record h (snd item)"
  shows "calculate_cgpa h semester_data =
       Inr (running_value h (sort_key fst semester_data) (length semester_data), semester_data,
            \<lparr>sm_total_credits =
               py_round (cumulative h ''total_credits'' (sort_key fst semester_data)
                           (length semester_data)) 1,
             sm_total_points =
               py_round (cumulative h ''total_points'' (sort_key fst semester_data)
                           (length semester_data)) 1,
             sm_max_possible_points =
               py_round (fmul (cumulative h ''total_credits'' (sort_key fst semester_data)
                                 (length semester_data)) 10) 1,
             sm_overall_percentage =
               percentage_value
                 (cumulative h ''total_points'' (sort_key fst semester_data) (length semester_data))
                 (cumulative h ''total_credits'' (sort_key fst semester_data)
                    (length semester_data))\<rparr>,
            store_after h (sort_key fst semester_data) (length semester_data))"
proof -
  define items where "items = sort_key fst semester_data"
  define N where "N = length semester_data"
  have sub: "set items \<subseteq> set semester_data" by (simp add: items_def)
  have len: "N = length items" by (simp add: items_def N_def)
  have run: "cgpa_loop semester_data items (0, 0, [], h) =
       Inr (cumulative h ''total_credits'' items N, cumulative h ''total_points'' items N,
            cgpa_after h items N, store_after h items N)"
    using cgpa_prefix_exact [OF d nr sub, of N] unfolding len by simp
  show ?thesis
    unfolding calculate_cgpa_def Let_def items_def [symmetric] N_def [symmetric] run
    by (simp add: running_cgpa_value overall_percentage_value running_value_def)
qed

lemma shared_fields:
  "num_field shared_store ''total_credits'' 10 = 20"
  "num_field shared_store ''total_credits'' 11 = 20"
  "num_field shared_store ''total_points'' 10 = 160"
  "num_field shared_store ''total_points'' 11 = 200"
  by (simp_all add: num_field_def shared_store_def)

lemma shared_cum:
  "cumulative shared_store ''total_credits'' [(1, 10), (2, 11), (3, 10)] (Suc 0) = 20"
  "cumulative shared_store ''total_points'' [(1, 10), (2, 11), (3, 10)] (Suc 0) = 160"
  "cumulative shared_store ''total_credits'' [(1, 10), (2, 11), (3, 10)] (Suc (Suc 0)) = 40"
  "cumulative shared_store ''total_points'' [(1, 10), (2, 11), (3, 10)] (Suc (Suc 0)) = 360"
  "cumulative shared_store ''total_credits'' [(1, 10), (2, 11), (3, 10)] (Suc (Suc (Suc 0))) = 60"
  "cumulative shared_store ''total_points'' [(1, 10), (2, 11), (3, 10)] (Suc (Suc (Suc 0))) = 520"
  unfolding cumulative_def by (simp_all add: shared_fields float_eval)

lemma shared_vals:
  "cgpa_value 160 20 = 8" "cgpa_value 360 40 = 9" "cgpa_value 520 60 = fl (867 / 100)"
  "fl (867 / 100) \<noteq> 8"
  by (simp_all add: cgpa_value_def float_eval)

text \<open>
  Claim C3, as the specification states it: the running cgpa stored for each semester is
  the quotient of its cumulative points by its cumulative credits.  The function writes
  the running value into the record object of the semester; when a later semester has the
  same record object, its write replaces the earlier one.  For the semesters 1, 2, 3 of
  which 1 and 3 share a record with 20 credits and 160 points (semester 2: 20 credits and
  200 points), the quotient of semester 1 is 8, and on return the record of semester 1
  holds 8.67.
\<close>

theorem calculate_cgpa_shared_record_counterexample:
  "distinct (map fst shared_semesters) \<and>
   list_all (\<lambda>item. numeric_record shared_store (snd item)) shared_semesters \<and>
   list_all (\<lambda>item. 0 \<le> num_field shared_store ''total_credits'' (snd item)) shared_semesters \<and>
   sort_key fst shared_semesters = shared_semesters \<and>
   map_of shared_semesters 1 = Some 10 \<and>
   cumulative shared_store ''total_credits'' shared_semesters 1 = 20 \<and>
   cumulative shared_store ''total_points'' shared_semesters 1 = 160 \<and>
   py_round (fl (160 / 20)) 2 = 8 \<and>
   (\<exists>overall_cgpa sm h'.
      calculate_cgpa shared_store shared_semesters = Inr (overall_cgpa, shared_semesters, sm, h') \<and>
      h' 10 ''cgpa'' = Some (Num (fl (867 / 100)))) \<and>
   fl (867 / 100) \<noteq> 8"
proof -
  have d: "distinct (map fst shared_semesters)" by (simp add: shared_semesters_def)
  have nr: "list_all (\<lambda>item. numeric_record shared_store (snd item)) shared_semesters"
    by (simp add: shared_semesters_def shared_store_def numeric_record_def is_num_def)
  have nn: "list_all (\<lambda>item. 0 \<le> num_field shared_store ''total_credits'' (snd item))
      shared_semesters"
    by (simp add: shared_semesters_def shared_fields)
  have srt: "sort_key fst shared_semesters = shared_semesters"
    by (simp add: shared_semesters_def)
  have mo: "map_of shared_semesters 1 = Some 10" by (simp add: shared_semesters_def)
  have c1: "cumulative shared_store ''total_credits'' shared_semesters 1 = 20"
    using shared_cum(1) by (simp add: shared_semesters_def)
  have p1: "cumulative shared_store ''total_points'' shared_semesters 1 = 160"
    using shared_cum(2) by (simp add: shared_semesters_def)
  have q: "py_round (fl (160 / 20)) 2 = 8" by (simp add: float_eval)
  have len: "length shared_semesters = Suc (Suc (Suc 0))" by (simp add: shared_semesters_def)
  have w: "store_after shared_store shared_semesters (Suc (Suc (Suc 0))) 10 ''cgpa'' =
      Some (Num (fl (867 / 100)))"
    by (simp add: shared_semesters_def running_value_def shared_cum shared_vals)
  have run: "\<exists>overall_cgpa sm h'.
      calculate_cgpa shared_store shared_semesters = Inr (overall_cgpa, shared_semesters, sm, h') \<and>
      h' 10 ''cgpa'' = Some (Num (fl (867 / 100)))"
    by (rule exI, rule exI, rule exI)
       (rule conjI [OF calculate_cgpa_exact [OF d nr [unfolded list_all_iff], unfolded srt len] w])
  show ?thesis by (intro conjI d nr nn srt mo c1 p1 q run shared_vals(4))
qed

text \<open>
  Claim C3, amended: \<open>calculate_cgpa\<close> processes the semesters in ascending order of
  their ids.  After the first \<open>n\<close> semesters of that order the cumulative credits and
  points are the sums of \<open>total_credits\<close> and \<open>total_points\<close> over these \<open>n\<close>
  semesters (float sums, accumulated in that order), and with non-negative credits the
  cumulative credits never decrease.  The running cgpa of the \<open>n\<close>-th semester is the
  cumulative points divided by the cumulative credits, rounded to two decimals, when the
  cumulative credits are positive, and 0 otherwise.  It is the value entered for the
  semester in \<open>semester_cgpa\<close>, and it is the value that the record of the semester
  holds under \<open>cgpa\<close> in the store the function returns, unless a later semester has
  the same record object.  The function returns the running value of the last semester,
  the mapping it was given, the summary of the cumulative totals, and that store.
\<close>

theorem calculate_cgpa_running:
  assumes d: "distinct (map fst semester_data)"
    and nr: "\<forall>item\<in>set semester_data. numeric_record h (snd item)"
  shows "let items = sort_key fst semester_data;
             N = length items;
             credits = cumulative h ''total_credits'' items;
             points = cumulative h ''total_points'' items;
             running = running_value h items
         in sorted (map fst items) \<and> mset items = mset semester_data \<and>
            credits 0 = 0 \<and> points 0 = 0 \<and>
            (\<forall>n<N. credits (Suc n) =
                      fadd (credits n) (num_field h ''total_credits'' (snd (items ! n))) \<and>
                    points (Suc n) =
                      fadd (points n) (num_field h ''total_points'' (snd (items ! n)))) \<and>
            (\<forall>n\<le>N. cgpa_loop semester_data (take n items) (0, 0, [], h) =
                 Inr (credits n, points n, cgpa_after h items n, store_after h items n)) \<and>
            calculate_cgpa h semester_data =
               Inr (running N, semester_data,
                    \<lparr>sm_total_credits = py_round (credits N) 1,
                     sm_total_points = py_round (points N) 1,
                     sm_max_possible_points = py_round (fmul (credits N) 10) 1,
                     sm_overall_percentage = percentage_value (points N) (credits N)\<rparr>,
                    store_after h items N) \<and>
            (\<forall>n<N. map_of (cgpa_after h items N) (fst (items ! n)) = Some (running (Suc n))) \<and>
            (\<forall>n<N. (\<forall>m. n < m \<and> m < N \<longrightarrow> snd (items ! m) \<noteq> snd (items ! n)) \<longrightarrow>
                    store_after h items N (snd (items ! n)) ''cgpa'' =
                      Some (Num (running (Suc n)))) \<and>
            (\<forall>n. running n =
                   (if 0 < credits n then py_round (fl (points n / credits n)) 2 else 0)) \<and>
            ((\<forall>item\<in>set semester_data. 0 \<le> num_field h ''total_credits'' (snd item)) \<longrightarrow>
               (\<forall>n<N. credits n \<le> credits (Suc n)) \<and> (\<forall>n. 0 \<le> credits n))"
proof -
  define items where "items = sort_key fst semester_data"
  define N where "N = length items"
  have set_items: "set items = set semester_data" by (simp add: items_def)
  have sub: "set items \<subseteq> set semester_data" using set_items by simp
  have s: "sorted (map fst items)" by (simp add: items_def)
  have m: "mset items = mset semester_data" by (simp add: items_def)
  have di: "distinct (map fst items)"
  proof -
    have "mset (map fst items) = mset (map fst semester_data)" using m by (metis mset_map)
    then show ?thesis using d by (metis mset_eq_imp_distinct_iff)
  qed
  have z1: "cumulative h ''total_credits'' items 0 = 0" by (simp add: cumulative_def)
  have z2: "cumulative h ''total_points'' items 0 = 0" by (simp add: cumulative_def)
  have step: "\<forall>n<N. cumulative h ''total_credits'' items (Suc n) =
                      fadd (cumulative h ''total_credits'' items n)
                        (num_field h ''total_credits'' (snd (items ! n))) \<and>
                    cumulative h ''total_points'' items (Suc n) =
                      fadd (cumulative h ''total_points'' items n)
                        (num_field h ''total_points'' (snd (items ! n)))"
    unfolding N_def by (intro allI impI conjI cumulative_Suc)
  have pre: "\<forall>n\<le>N. cgpa_loop semester_data (take n items) (0, 0, [], h) =
       Inr (cumulative h ''total_credits'' items n, cumulative h ''total_points'' items n,
            cgpa_after h items n, store_after h items n)"
    unfolding N_def by (intro allI impI cgpa_prefix_exact [OF d nr sub])
  have run: "cgpa_loop semester_data items (0, 0, [], h) =
       Inr (cumulative h ''total_credits'' items N, cumulative h ''total_points'' items N,
            cgpa_after h items N, store_after h items N)"
    using cgpa_prefix_exact [OF d nr sub, of N] unfolding N_def by simp
  have c: "calculate_cgpa h semester_data =
       Inr (running_value h items N, semester_data,
            \<lparr>sm_total_credits = py_round (cumulative h ''total_credits'' items N) 1,
             sm_total_points = py_round (cumulative h ''total_points'' items N) 1,
             sm_max_possible_points = py_round (fmul (cumulative h ''total_credits'' items N) 10) 1,
             sm_overall_percentage =
               percentage_value (cumulative h ''total_points'' items N)
                 (cumulative h ''total_credits'' items N)\<rparr>,
            store_after h items N)"
    unfolding calculate_cgpa_def Let_def items_def [symmetric] run
    by (simp add: running_cgpa_value overall_percentage_value running_value_def)
  have sc: "\<forall>n<N. map_of (cgpa_after h items N) (fst (items ! n)) =
                Some (running_value h items (Suc n))"
    unfolding N_def by (intro allI impI cgpa_after_value [OF _ _ di]) simp_all
  have st: "\<forall>n<N. (\<forall>m. n < m \<and> m < N \<longrightarrow> snd (items ! m) \<noteq> snd (items ! n)) \<longrightarrow>
                    store_after h items N (snd (items ! n)) ''cgpa'' =
                      Some (Num (running_value h items (Suc n)))"
    unfolding N_def by (intro allI impI store_after_value) simp_all
  have v: "\<forall>n. running_value h items n =
       (if 0 < cumulative h ''total_credits'' items n
        then py_round (fl (cumulative h ''total_points'' items n /
                           cumulative h ''total_credits'' items n)) 2
        else 0)"
    by (simp add: running_value_def cgpa_value_def)
  have mono: "(\<forall>item\<in>set semester_data. 0 \<le> num_field h ''total_credits'' (snd item)) \<longrightarrow>
       (\<forall>n<N. cumulative h ''total_credits'' items n
           \<le> cumulative h ''total_credits'' items (Suc n)) \<and>
       (\<forall>n. 0 \<le> cumulative h ''total_credits'' items n)"
  proof (intro impI conjI allI)
    assume nn: "\<forall>item\<in>set semester_data. 0 \<le> num_field h ''total_credits'' (snd item)"
    then have nn': "\<forall>item\<in>set items. 0 \<le> num_field h ''total_credits'' (snd item)"
      unfolding set_items .
    fix n
    show "0 \<le> cumulative h ''total_credits'' items n" by (rule cumulative_nonneg [OF nn'])
    assume "n < N"
    then show "cumulative h ''total_credits'' items n \<le> cumulative h ''total_credits'' items (Suc n)"
      unfolding N_def by (rule cumulative_mono [OF nn'])
  qed
  show ?thesis
    unfolding Let_def items_def [symmetric] N_def [symmetric]
    by (intro conjI s m z1 z2 step pre c sc st v mono)
qed

theorem calculate_cgpa_running_witness:
  "distinct (map fst example_semesters) \<and>
   list_all (\<lambda>item. numeric_record example_store (snd item)) example_semesters \<and>
   list_all (\<lambda>item. 0 \<le> num_field example_store ''total_credits'' (snd item)) example_semesters \<and>
   sort_key fst example_semesters = [(1, 10), (2, 11)] \<and>
   cumulative example_store ''total_credits'' [(1, 10), (2, 11)] 1 = 20 \<and>
   cumulative example_store ''total_credits'' [(1, 10), (2, 11)] 2 = 42 \<and>
   cumulative example_store ''total_credits'' [(1, 10), (2, 11)] 1
     \<le> cumulative example_store ''total_credits'' [(1, 10), (2, 11)] 2 \<and>
   calculate_cgpa example_store example_semesters =
     Inr (fl (852 / 100), example_semesters,
          \<lparr>sm_total_credits = 42, sm_total_points = 358, sm_max_possible_points = 420,
           sm_overall_percentage = fl (8524 / 100)\<rparr>,
          store_after example_store [(1, 10), (2, 11)] 2) \<and>
   store_after example_store [(1, 10), (2, 11)] 2 10 ''cgpa'' = Some (Num 8) \<and>
   store_after example_store [(1, 10), (2, 11)] 2 11 ''cgpa'' = Some (Num (fl (852 / 100)))"
proof -
  have w_n: "\<forall>item\<in>set example_semesters. numeric_record example_store (snd item)"
    using ex_numeric by (simp add: list_all_iff)
  have w_nn: "list_all (\<lambda>item. 0 \<le> num_field example_store ''total_credits'' (snd item))
      example_semesters"
    by (simp add: example_semesters_def ex_fields)
  have l: "length [(1::int, 10::nat), (2, 11)] = 2" by simp
  have two: "Suc (Suc 0) = 2" "Suc 1 = 2" by simp_all
  have r1: "running_value example_store [(1, 10), (2, 11)] (Suc 0) = 8"
    using ex_cum ex_vals by (simp add: running_value_def)
  have r2: "running_value example_store [(1, 10), (2, 11)] 2 = fl (852 / 100)"
    using ex_cum ex_vals by (simp add: running_value_def)
  have pv: "percentage_value 358 42 = fl (8524 / 100)"
    by (simp add: percentage_value_def float_eval)
  have s: "py_round 42 1 = 42" "py_round 358 1 = 358" "py_round (fmul 42 10) 1 = 420"
    by (simp_all add: float_eval)
  note main = calculate_cgpa_running [OF ex_distinct w_n, unfolded Let_def ex_sorted l]
  note c5 = main [THEN conjunct2, THEN conjunct2, THEN conjunct2, THEN conjunct2]
  note c7 = c5 [THEN conjunct2, THEN conjunct2]
  note c9 = c7 [THEN conjunct2, THEN conjunct2]
  note c11 = c9 [THEN conjunct2, THEN conjunct2]
  have run: "calculate_cgpa example_store example_semesters =
     Inr (fl (852 / 100), example_semesters,
          \<lparr>sm_total_credits = 42, sm_total_points = 358, sm_max_possible_points = 420,
           sm_overall_percentage = fl (8524 / 100)\<rparr>,
          store_after example_store [(1, 10), (2, 11)] 2)"
    using c7 [THEN conjunct1] unfolding r2 ex_cum pv s .
  have p0: "(0::nat) < 2" and p1: "(1::nat) < 2" by simp_all
  have s0: "snd ([(1::int, 10::nat), (2, 11)] ! 0) = 10"
    and s1: "snd ([(1::int, 10::nat), (2, 11)] ! 1) = 11" by simp_all
  have na0: "\<forall>m. 0 < m \<and> m < (2::nat) \<longrightarrow>
      snd ([(1::int, 10::nat), (2, 11)] ! m) \<noteq> snd ([(1::int, 10::nat), (2, 11)] ! 0)"
  proof (intro allI impI)
    fix m :: nat assume "0 < m \<and> m < 2"
    then have "m = 1" by simp
    then show "snd ([(1::int, 10::nat), (2, 11)] ! m) \<noteq> snd ([(1::int, 10::nat), (2, 11)] ! 0)"
      by simp
  qed
  have na1: "\<forall>m. 1 < m \<and> m < (2::nat) \<longrightarrow>
      snd ([(1::int, 10::nat), (2, 11)] ! m) \<noteq> snd ([(1::int, 10::nat), (2, 11)] ! 1)"
    by simp
  have st0: "store_after example_store [(1, 10), (2, 11)] 2 10 ''cgpa'' = Some (Num 8)"
    using c9 [THEN conjunct1, THEN spec [where x = 0], THEN mp, OF p0, THEN mp, OF na0]
    unfolding s0 r1 .
  have st1: "store_after example_store [(1, 10), (2, 11)] 2 11 ''cgpa'' =
      Some (Num (fl (852 / 100)))"
    using c9 [THEN conjunct1, THEN spec [where x = 1], THEN mp, OF p1, THEN mp, OF na1]
    unfolding s1 two r2 .
  have mono: "cumulative example_store ''total_credits'' [(1, 10), (2, 11)] 1
     \<le> cumulative example_store ''total_credits'' [(1, 10), (2, 11)] 2"
    using c11 [THEN mp, OF w_nn [unfolded list_all_iff], THEN conjunct1,
               THEN spec [where x = 1], THEN mp, OF p1]
    unfolding two .
  show ?thesis
    by (intro conjI ex_distinct ex_numeric w_nn ex_sorted ex_cum(1) ex_cum(2) mono run st0 st1)
qed

text \<open>
  Claim C10: \<open>calculate_cgpa\<close> returns the mapping it was given, with the same semester
  ids and the same records; in the store, every key of every record other than \<open>cgpa\<close>
  keeps its value (\<open>total_credits\<close> and \<open>total_points\<close> among them), objects that
  are not records of the mapping are untouched, and each semester's record holds a number
  under \<open>cgpa\<close> afterwards.  On records with numeric totals the function returns.
\<close>

theorem calculate_cgpa_frame:
  "(distinct (map fst semester_data) \<and>
    (\<forall>item\<in>set semester_data. numeric_record h (snd item)) \<longrightarrow>
      (\<exists>r. calculate_cgpa h semester_data = Inr r)) \<and>
   (calculate_cgpa h semester_data = Inr (overall, semester_data', sm, h') \<longrightarrow>
      semester_data' = semester_data \<and>
      (\<forall>a k. k \<noteq> ''cgpa'' \<longrightarrow> h' a k = h a k) \<and>
      (\<forall>a. a \<notin> snd ` set semester_data \<longrightarrow> h' a = h a) \<and>
      (\<forall>item\<in>set semester_data. \<forall>a. map_of semester_data (fst item) = Some a \<longrightarrow>
          is_num (h' a ''cgpa'')))"
proof (intro conjI impI)
  assume wf: "distinct (map fst semester_data) \<and>
    (\<forall>item\<in>set semester_data. numeric_record h (snd item))"
  have sub: "set (sort_key fst semester_data) \<subseteq> set semester_data" by simp
  obtain sc h1 where
    run: "cgpa_loop semester_data (sort_key fst semester_data) (0, 0, [], h) =
       Inr (cumulative h ''total_credits'' (sort_key fst semester_data) (length semester_data),
            cumulative h ''total_points'' (sort_key fst semester_data) (length semester_data), sc, h1)"
    using cgpa_prefix_run [of semester_data h "sort_key fst semester_data" "length semester_data"] wf
    by auto
  obtain q where q: "overall_percentage_of
      (cumulative h ''total_points'' (sort_key fst semester_data) (length semester_data))
      (cumulative h ''total_credits'' (sort_key fst semester_data) (length semester_data)) = Inr q"
    using overall_percentage_returns by blast
  show "\<exists>r. calculate_cgpa h semester_data = Inr r"
    unfolding calculate_cgpa_def Let_def run by (simp add: running_cgpa_value q)
next
  assume r: "calculate_cgpa h semester_data = Inr (overall, semester_data', sm, h')"
  then obtain cc cp sc where
    loop: "cgpa_loop semester_data (sort_key fst semester_data) (0, 0, [], h) = Inr (cc, cp, sc, h')"
    and sd: "semester_data' = semester_data"
    unfolding calculate_cgpa_def Let_def
    by (auto split: sum.splits prod.splits)
  show "semester_data' = semester_data" by (rule sd)
  show "\<forall>a k. k \<noteq> ''cgpa'' \<longrightarrow> h' a k = h a k"
    using cgpa_loop_frame [OF loop] by blast
  show "\<forall>a. a \<notin> snd ` set semester_data \<longrightarrow> h' a = h a"
    using cgpa_loop_frame [OF loop] by blast
  show "\<forall>item\<in>set semester_data. \<forall>a. map_of semester_data (fst item) = Some a \<longrightarrow>
          is_num (h' a ''cgpa'')"
    using cgpa_loop_written [OF loop] by simp
qed

theorem calculate_cgpa_frame_witness:
  "distinct (map fst example_semesters) \<and>
   list_all (\<lambda>item. numeric_record example_store (snd item)) example_semesters \<and>
   calculate_cgpa example_store example_semesters =
     Inr (fl (852 / 100), example_semesters,
          \<lparr>sm_total_credits = 42, sm_total_points = 358, sm_max_possible_points = 420,
           sm_overall_percentage = fl (8524 / 100)\<rparr>,
          example_store
            (10 := (example_store 10)(''cgpa'' \<mapsto> Num 8),
             11 := (example_store 11)(''cgpa'' \<mapsto> Num (fl (852 / 100))))) \<and>
   (example_store
      (10 := (example_store 10)(''cgpa'' \<mapsto> Num 8),
       11 := (example_store 11)(''cgpa'' \<mapsto> Num (fl (852 / 100))))) 11 ''total_credits'' =
     example_store 11 ''total_credits'' \<and>
   (example_store
      (10 := (example_store 10)(''cgpa'' \<mapsto> Num 8),
       11 := (example_store 11)(''cgpa'' \<mapsto> Num (fl (852 / 100))))) 12 = example_store 12 \<and>
   is_num ((example_store
      (10 := (example_store 10)(''cgpa'' \<mapsto> Num 8),
       11 := (example_store 11)(''cgpa'' \<mapsto> Num (fl (852 / 100))))) 10 ''cgpa'')"
proof -
  define h1 where "h1 = example_store
            (10 := (example_store 10)(''cgpa'' \<mapsto> Num 8),
             11 := (example_store 11)(''cgpa'' \<mapsto> Num (fl (852 / 100))))"
  have run: "calculate_cgpa example_store example_semesters =
     Inr (fl (852 / 100), example_semesters,
          \<lparr>sm_total_credits = 42, sm_total_points = 358, sm_max_possible_points = 420,
           sm_overall_percentage = fl (8524 / 100)\<rparr>, h1)"
    unfolding h1_def by (rule ex_run)
  note fr = calculate_cgpa_frame [of example_semesters example_store "fl (852 / 100)"
      example_semesters
      "\<lparr>sm_total_credits = 42, sm_total_points = 358, sm_max_possible_points = 420,
        sm_overall_percentage = fl (8524 / 100)\<rparr>" h1, THEN conjunct2, rule_format, OF run]
  note f1 = fr [THEN conjunct2, THEN conjunct1, rule_format]
  note f2 = fr [THEN conjunct2, THEN conjunct2, THEN conjunct1, rule_format]
  note f3 = fr [THEN conjunct2, THEN conjunct2, THEN conjunct2, rule_format]
  have a: "12 \<notin> snd ` set example_semesters" by (simp add: example_semesters_def)
  have b: "(1, 10) \<in> set example_semesters" by (simp add: example_semesters_def)
  have b': "map_of example_semesters (fst (1::int, 10::nat)) = Some 10"
    by (simp add: example_semesters_def)
  have c: "''total_credits'' \<noteq> ''cgpa''" by simp
  have r1: "h1 11 ''total_credits'' = example_store 11 ''total_credits''"
    using c by (rule f1)
  have r2: "h1 12 = example_store 12" using a by (rule f2)
  have r3: "is_num (h1 10 ''cgpa'')" using b b' by (rule f3)
  show ?thesis
    unfolding h1_def [symmetric] by (intro conjI ex_distinct ex_numeric run r1 r2 r3)
qed

section \<open>The second chance of \<open>combine_data\<close> never fails on an index\<close>

lemma core_groups_nonempty:
  "core_groups u = Some gs \<Longrightarrow>
     \<exists>y d s t. gs = [y, d, s, t] \<and> y \<noteq> [] \<and> d \<noteq> [] \<and> s \<noteq> [] \<and> t \<noteq> []"
  by (auto simp: core_groups_def Let_def split: if_splits)

lemma core_find_nonempty:
  "core_find code = Some gs \<Longrightarrow>
     \<exists>y d s t. gs = [y, d, s, t] \<and> y \<noteq> [] \<and> d \<noteq> [] \<and> s \<noteq> [] \<and> t \<noteq> []"
proof (induction code)
  case Nil
  then show ?case by simp
next
  case (Cons c cs)
  show ?case
  proof (cases "core_groups (c # cs)")
    case None
    then show ?thesis using Cons by simp
  next
    case (Some g)
    then have "g = gs" using Cons.prems by simp
    then show ?thesis using Some core_groups_nonempty by blast
  qed
qed

lemma extract_shape:
  "extract_core_code_parts code = (None, None, None, None) \<or>
   (\<exists>y d s t. extract_core_code_parts code = (Some y, Some d, Some s, Some t) \<and>
      y \<noteq> [] \<and> d \<noteq> [] \<and> s \<noteq> [] \<and> t \<noteq> [])"
proof (cases "core_find code")
  case None
  then show ?thesis by (simp add: extract_alt)
next
  case (Some gs)
  then obtain y d s t where "gs = [y, d, s, t]" "y \<noteq> []" "d \<noteq> []" "s \<noteq> []" "t \<noteq> []"
    using core_find_nonempty by blast
  then show ?thesis using Some by (simp add: extract_alt)
qed

lemma dict_at_key: "k \<in> set (map fst d) \<Longrightarrow> \<exists>v. dict_at d k = Inr v"
proof -
  assume "k \<in> set (map fst d)"
  then have "map_of d k \<noteq> None" by (simp add: map_of_eq_None_iff)
  then show ?thesis by (auto simp: dict_at_def)
qed

lemma index0_nonempty: "t \<noteq> [] \<Longrightarrow> \<exists>c. index0 (Some t) = Inr c"
  by (cases t) (auto simp: index0_def)

lemma sem_type_test_returns:
  assumes "t \<noteq> []"
  shows "\<exists>b. sem_type_test sem (Some t) (fst (snd (snd (extract_core_code_parts code))))
            (snd (snd (snd (extract_core_code_parts code)))) = Inr b"
proof -
  consider "extract_core_code_parts code = (None, None, None, None)"
    | y d s t' where "extract_core_code_parts code = (Some y, Some d, Some s, Some t')" "t' \<noteq> []"
    using extract_shape [of code] by blast
  then show ?thesis
  proof cases
    case 1
    then show ?thesis by (auto simp: sem_type_test_def)
  next
    case 2
    obtain a where a: "index0 (Some t) = Inr a" using index0_nonempty [OF assms] by blast
    obtain b where b: "index0 (Some t') = Inr b" using index0_nonempty [OF 2(2)] by blast
    show ?thesis using 2(1) a b by (auto simp: sem_type_test_def)
  qed
qed

lemma sem_type_pass_hit:
  assumes e: "extract_core_code_parts code = (y, d, code_sem, code_type)"
   and b: "sem_type_test sem type_code code_sem code_type = Inr True"
   and v: "dict_at course_credits code = Inr v"
  shows "sem_type_pass (code # rest) course_credits subject_names subj sem type_code combined_data =
     Inr (dict_set combined_data (u_code subj)
                         (combined_entry (dict_get subject_names code (u_name subj)) v
                            (u_grade subj)))"
    by (simp only: sem_type_pass.simps e b v prod.case sum.case bool.case if_True)

lemma sem_type_pass_miss:
  assumes e: "extract_core_code_parts code = (y, d, code_sem, code_type)"
   and b: "sem_type_test sem type_code code_sem code_type = Inr False"
  shows "sem_type_pass (code # rest) course_credits subject_names subj sem type_code combined_data =
      sem_type_pass rest course_credits subject_names subj sem type_code combined_data"
    by (simp only: sem_type_pass.simps e b prod.case sum.case bool.case if_False)

lemma sem_type_pass_returns:
  assumes "t \<noteq> []" and "set codes \<subseteq> set (map fst course_credits)"
  shows "\<exists>r. sem_type_pass codes course_credits subject_names subj sem (Some t)
             combined_data = Inr r"
  using assms(2)
proof (induction codes)
  case Nil
  show ?case by (simp only: sem_type_pass.simps) (rule exI, rule refl)
next
  case (Cons code rest)
  obtain y d code_sem code_type where e: "extract_core_code_parts code = (y, d, code_sem, code_type)"
    by (cases "extract_core_code_parts code") (rule that)
  have cs: "code_sem = fst (snd (snd (extract_core_code_parts code)))"
    and ct: "code_type = snd (snd (snd (extract_core_code_parts code)))"
    unfolding e by simp_all
  obtain b where b: "sem_type_test sem (Some t) code_sem code_type = Inr b"
    using sem_type_test_returns [OF assms(1), of sem code] unfolding cs ct by (elim exE)
  have "code \<in> set (map fst course_credits)" using Cons.prems by simp
  from dict_at_key [OF this] obtain v where v: "dict_at course_credits code = Inr v"
    by (elim exE)
  have rest: "\<exists>r. sem_type_pass rest course_credits subject_names subj sem (Some t)
             combined_data = Inr r"
    using Cons.IH Cons.prems by simp
  show ?case
  proof (cases b)
    case True
    have bT: "sem_type_test sem (Some t) code_sem code_type = Inr True"
      using b True by simp
    show ?thesis
      unfolding sem_type_pass_hit [OF e bT v] by (rule exI, rule refl)
  next
    case False
    have bF: "sem_type_test sem (Some t) code_sem code_type = Inr False"
      using b False by simp
    show ?thesis
      unfolding sem_type_pass_miss [OF e bF] by (rule rest)
  qed
qed

lemma special_pass_returns:
  "\<exists>r. special_pass cases course_credits subject_names subj combined_data = Inr r"
proof (induction cases)
  case Nil
  show ?case by (simp only: special_pass.simps) (rule exI, rule refl)
next
  case (Cons c rest)
  obtain keyword pattern where c: "c = (keyword, pattern)" by (cases c)
  show ?case
  proof (cases "contains keyword (u_name subj)")
    case False
    have "special_pass (c # rest) course_credits subject_names subj combined_data =
          special_pass rest course_credits subject_names subj combined_data"
      unfolding c using False by (simp only: special_pass.simps if_False)
    then show ?thesis using Cons by (simp only:)
  next
    case True
    show ?thesis
    proof (cases "filter (\<lambda>code. re_search pattern code \<noteq> None) (map fst course_credits)")
      case Nil
      have "special_pass (c # rest) course_credits subject_names subj combined_data =
            special_pass rest course_credits subject_names subj combined_data"
        unfolding c using True Nil by (simp only: special_pass.simps if_True list.case)
      then show ?thesis using Cons.IH by (simp only:)
    next
      case (Cons code others)
      have "code \<in> set (filter (\<lambda>code. re_search pattern code \<noteq> None) (map fst course_credits))"
        unfolding Cons by simp
      then have "code \<in> set (map fst course_credits)" by simp
      from dict_at_key [OF this] obtain v where v: "dict_at course_credits code = Inr v"
        by (elim exE)
      have "special_pass (c # rest) course_credits subject_names subj combined_data =
            Inr (dict_set combined_data (u_code subj)
                            (combined_entry (dict_get subject_names code (u_name subj)) v
                               (u_grade subj)))"
        unfolding c using True Cons v by (simp only: special_pass.simps if_True list.case sum.case)
      then show ?thesis by (simp only:) (rule exI, rule refl)
    qed
  qed
qed

lemma second_chance_returns:
  "\<exists>r. second_chance course_credits subject_names combined_data subj = Inr r"
proof -
  have "\<exists>cd. special_pass special_cases course_credits subject_names subj combined_data = Inr cd"
    by (rule special_pass_returns)
  then obtain cd where cd: "special_pass special_cases course_credits subject_names subj combined_data = Inr cd"
    by (elim exE)
  consider "extract_core_code_parts (u_code subj) = (None, None, None, None)"
    | y d s t where "extract_core_code_parts (u_code subj) = (Some y, Some d, Some s, Some t)" "t \<noteq> []"
    using extract_shape [of "u_code subj"] by blast
  then show ?thesis
  proof cases
    case 1
    have "second_chance course_credits subject_names combined_data subj = Inr cd"
      unfolding second_chance_def cd 1 by simp
    then show ?thesis by (rule exI)
  next
    case 2
    have "\<exists>r. sem_type_pass (map fst course_credits) course_credits subject_names subj s
        (Some t) cd = Inr r"
      by (rule sem_type_pass_returns [OF 2(2)]) (rule subset_refl)
    then obtain r where r: "sem_type_pass (map fst course_credits) course_credits subject_names subj s
        (Some t) cd = Inr r"
      by (elim exE)
    have "second_chance course_credits subject_names combined_data subj =
          (if s \<noteq> [] then Inr r else Inr cd)"
      unfolding second_chance_def cd 2(1) using r by simp
    then show ?thesis by (cases "s = []") simp_all
  qed
qed

lemma second_chance_loop_returns:
  "\<exists>r. second_chance_loop course_credits subject_names unmatched_subjects combined_data = Inr r"
proof (induction unmatched_subjects arbitrary: combined_data)
  case Nil
  show ?case by (simp only: second_chance_loop.simps) (rule exI, rule refl)
next
  case (Cons subj rest)
  have "\<exists>cd. second_chance course_credits subject_names combined_data subj = Inr cd"
    by (rule second_chance_returns)
  then obtain cd where cd: "second_chance course_credits subject_names combined_data subj = Inr cd"
    by (elim exE)
  have "second_chance_loop course_credits subject_names (subj # rest) combined_data =
        second_chance_loop course_credits subject_names rest cd"
    by (simp only: second_chance_loop.simps cd sum.case)
  then show ?case using Cons.IH [of cd] by (simp only:)
qed

lemma extract_type_index:
  assumes "extract_core_code_parts code = (y, d, Some s, tc)"
  shows "\<exists>t c. tc = Some t \<and> t \<noteq> [] \<and> index0 tc = Inr c"
proof -
  from extract_shape [of code] assms
  obtain t where t: "tc = Some t" "t \<noteq> []" by auto
  from index0_nonempty [OF t(2)] obtain c where "index0 (Some t) = Inr c" by (elim exE)
  then show ?thesis using t by simp
qed

text \<open>
  Claim C9.  \<open>extract_core_code_parts\<close> returns either four nulls or four non-empty
  strings (year, department, semester, type), never a mixture.  Hence whenever the
  extracted semester is not null the type code is a non-empty string whose first
  character can be read, and the second chance of \<open>combine_data\<close> over the unmatched
  subjects always returns: no indexing in it fails.
\<close>

theorem extract_core_code_parts_all_or_none:
  "(extract_core_code_parts code = (None, None, None, None) \<or>
    (\<exists>y d s t. extract_core_code_parts code = (Some y, Some d, Some s, Some t) \<and>
       y \<noteq> [] \<and> d \<noteq> [] \<and> s \<noteq> [] \<and> t \<noteq> [])) \<and>
   (\<forall>y d s tc. extract_core_code_parts code = (y, d, Some s, tc) \<longrightarrow>
       (\<exists>t c. tc = Some t \<and> t \<noteq> [] \<and> index0 tc = Inr c)) \<and>
   (\<exists>r. second_chance_loop course_credits subject_names unmatched_subjects combined_data = Inr r)"
proof (intro conjI allI impI)
  show "extract_core_code_parts code = (None, None, None, None) \<or>
    (\<exists>y d s t. extract_core_code_parts code = (Some y, Some d, Some s, Some t) \<and>
       y \<noteq> [] \<and> d \<noteq> [] \<and> s \<noteq> [] \<and> t \<noteq> [])"
    by (rule extract_shape)
next
  fix y d s tc
  assume "extract_core_code_parts code = (y, d, Some s, tc)"
  then show "\<exists>t c. tc = Some t \<and> t \<noteq> [] \<and> index0 tc = Inr c"
    by (rule extract_type_index)
next
  show "\<exists>r. second_chance_loop course_credits subject_names unmatched_subjects combined_data = Inr r"
    by (rule second_chance_loop_returns)
qed

theorem extract_core_code_parts_all_or_none_witness:
  "extract_core_code_parts ''23CS3CSFM'' = (Some ''23'', Some ''CS'', Some ''3'', Some ''CSFM'') \<and>
   index0 (Some ''CSFM'') = Inr CHR ''C'' \<and>
   (\<exists>r. second_chance_loop [(''23CS3CSFM'', 4)] [(''23CS3CSFM'', ''Maths'')]
          [\<lparr>u_code = ''23IS3CSDS'', u_name = ''Data'', u_grade = ''A''\<rparr>] [] = Inr r)"
proof -
  note main = extract_core_code_parts_all_or_none [of "''23CS3CSFM''" "[(''23CS3CSFM'', 4)]"
      "[(''23CS3CSFM'', ''Maths'')]"
      "[\<lparr>u_code = ''23IS3CSDS'', u_name = ''Data'', u_grade = ''A''\<rparr>]" "[]"]
  have e: "extract_core_code_parts ''23CS3CSFM'' =
           (Some ''23'', Some ''CS'', Some ''3'', Some ''CSFM'')"
    by (simp add: extract_alt core_groups_def Let_def is_digit_def is_alpha_def)
  from main [THEN conjunct2, THEN conjunct1, rule_format, OF e]
  obtain t c where tc: "Some ''CSFM'' = Some t" "index0 (Some ''CSFM'') = Inr c" by (elim exE conjE)
  have i: "index0 (Some ''CSFM'') = Inr CHR ''C''" using tc(2) by (simp add: index0_def)
  show ?thesis by (intro conjI e i main [THEN conjunct2, THEN conjunct2])
qed


section \<open>The fuzzy stage of the matcher\<close>

lemma fold_max_ge: "(h::real) \<le> fold max xs h"
proof (induction xs arbitrary: h)
  case Nil
  show ?case by simp
next
  case (Cons x xs)
  have "h \<le> max x h" by simp
  also have "\<dots> \<le> fold max xs (max x h)" by (rule Cons.IH)
  finally show ?case by simp
qed

lemma fold_max_Max:
  "xs \<noteq> [] \<Longrightarrow> fold max xs (h::real) = max h (Max (set xs))"
proof (induction xs arbitrary: h)
  case Nil
  then show ?case by simp
next
  case (Cons x xs)
  show ?case
  proof (cases "xs = []")
    case True
    then show ?thesis by (simp add: max.commute)
  next
    case False
    have "fold max (x # xs) h = max (max x h) (Max (set xs))"
      using Cons.IH [OF False, of "max x h"] by simp
    also have "\<dots> = max h (Max (set (x # xs)))"
      using False by (simp add: max.assoc max.commute max.left_commute)
    finally show ?thesis .
  qed
qed

lemma fuzzy_stage_char:
  "fuzzy_stage ratio sem nc codes (b, h) =
     (let m = fold max (map (ratio nc) (candidates sem codes)) h
      in (if h < m then find (\<lambda>code. ratio nc code = m) (candidates sem codes) else b, m))"
proof (induction codes arbitrary: b h)
  case Nil
  show ?case by (simp add: candidates_def)
next
  case (Cons code rest)
  show ?case
  proof (cases "contains sem code")
    case False
    have c: "candidates sem (code # rest) = candidates sem rest"
      using False by (simp add: candidates_def)
    have "fuzzy_stage ratio sem nc (code # rest) (b, h) = fuzzy_stage ratio sem nc rest (b, h)"
      using False by simp
    then show ?thesis unfolding c using Cons.IH [of b h] by (simp only:)
  next
    case True
    have c: "candidates sem (code # rest) = code # candidates sem rest"
      using True by (simp add: candidates_def)
    define s where "s = ratio nc code"
    show ?thesis
    proof (cases "h < s")
      case hs: True
      define m where "m = fold max (map (ratio nc) (candidates sem rest)) s"
      have ms: "s \<le> m" unfolding m_def by (rule fold_max_ge)
      have st: "fuzzy_stage ratio sem nc (code # rest) (b, h) =
                fuzzy_stage ratio sem nc rest (Some code, s)"
        using True hs by (simp add: s_def Let_def)
      have ih: "fuzzy_stage ratio sem nc rest (Some code, s) =
         (if s < m then find (\<lambda>code. ratio nc code = m) (candidates sem rest) else Some code, m)"
        using Cons.IH [of "Some code" s] by (simp add: m_def Let_def)
      have mx: "max s h = s" using hs by simp
      have fm: "fold max (map (ratio nc) (code # candidates sem rest)) h = m"
        by (simp add: m_def s_def [symmetric] mx)
      have hm: "h < m" using hs ms by simp
      have fnd: "find (\<lambda>code. ratio nc code = m) (code # candidates sem rest) =
                 (if s < m then find (\<lambda>code. ratio nc code = m) (candidates sem rest) else Some code)"
        using ms by (auto simp: s_def [symmetric])
      show ?thesis unfolding st ih c Let_def fm using hm fnd by simp
    next
      case hs: False
      define m where "m = fold max (map (ratio nc) (candidates sem rest)) h"
      have st: "fuzzy_stage ratio sem nc (code # rest) (b, h) =
                fuzzy_stage ratio sem nc rest (b, h)"
        using True hs by (simp add: s_def Let_def)
      have ih: "fuzzy_stage ratio sem nc rest (b, h) =
         (if h < m then find (\<lambda>code. ratio nc code = m) (candidates sem rest) else b, m)"
        using Cons.IH [of b h] by (simp add: m_def Let_def)
      have mx: "max s h = h" using hs by simp
      have fm: "fold max (map (ratio nc) (code # candidates sem rest)) h = m"
        by (simp add: m_def s_def [symmetric] mx)
      have fnd: "h < m \<Longrightarrow> find (\<lambda>code. ratio nc code = m) (code # candidates sem rest) =
                 find (\<lambda>code. ratio nc code = m) (candidates sem rest)"
        using hs by (auto simp: s_def [symmetric])
      show ?thesis unfolding st ih c Let_def fm using fnd by simp
    qed
  qed
qed

lemma fuzzy_stage_spec:
  "(case fuzzy_stage ratio sem nc codes (None, 0) of
      (best_match, highest_similarity) \<Rightarrow>
        if 1 / 2 < highest_similarity then best_match else None) = fuzzy_spec ratio sem nc codes"
proof (cases "candidates sem codes = []")
  case True
  show ?thesis unfolding fuzzy_stage_char fuzzy_spec_def Let_def True by simp
next
  case False
  define M where "M = Max (set (map (ratio nc) (candidates sem codes)))"
  have fm: "fold max (map (ratio nc) (candidates sem codes)) 0 = max 0 M"
    unfolding M_def by (rule fold_max_Max) (simp add: False)
  show ?thesis
    unfolding fuzzy_stage_char fuzzy_spec_def Let_def fm M_def [symmetric]
    using False by (auto simp: max_def)
qed

lemma fold_max_le:
  "\<forall>x \<in> set xs. x \<le> k \<Longrightarrow> h \<le> k \<Longrightarrow> fold max xs (h::real) \<le> k"
  by (induction xs arbitrary: h) simp_all

lemma fuzzy_spec_Some:
  assumes "fuzzy_spec ratio sem nc codes = Some c"
  shows "c \<in> set (candidates sem codes) \<and> 1 / 2 < ratio nc c \<and>
         (\<forall>c' \<in> set (candidates sem codes). ratio nc c' \<le> ratio nc c)"
proof -
  define cands where "cands = candidates sem codes"
  define M where "M = Max (set (map (ratio nc) cands))"
  have ne: "cands \<noteq> []" and big: "1 / 2 < M"
    and f: "find (\<lambda>code. ratio nc code = M) cands = Some c"
    using assms unfolding fuzzy_spec_def Let_def cands_def [symmetric] M_def [symmetric]
    by (auto split: if_splits)
  from f have c: "c \<in> set cands" "ratio nc c = M"
    by (auto simp: find_Some_iff)
  have "\<forall>c' \<in> set cands. ratio nc c' \<le> M"
    unfolding M_def by simp
  then show ?thesis using c big unfolding cands_def by simp
qed

lemma fuzzy_spec_None:
  "(fuzzy_spec ratio sem nc codes = None) =
   (\<forall>c \<in> set (candidates sem codes). ratio nc c \<le> 1 / 2)"
proof (cases "candidates sem codes = []")
  case True
  then show ?thesis by (simp add: fuzzy_spec_def)
next
  case False
  define cands where "cands = candidates sem codes"
  define M where "M = Max (set (map (ratio nc) cands))"
  have ne: "cands \<noteq> []" using False by (simp add: cands_def)
  have fin: "finite (set (map (ratio nc) cands))" by simp
  have ne2: "set (map (ratio nc) cands) \<noteq> {}" using ne by simp
  have Min: "M \<in> set (map (ratio nc) cands)" unfolding M_def by (rule Max_in [OF fin ne2])
  then obtain c where c: "c \<in> set cands" "ratio nc c = M" by auto
  have fnd: "find (\<lambda>code. ratio nc code = M) cands \<noteq> None"
    using c by (auto simp: find_None_iff)
  have le: "(\<forall>c \<in> set cands. ratio nc c \<le> 1 / 2) = (M \<le> 1 / 2)"
  proof -
    have "(M \<le> 1 / 2) = (\<forall>a \<in> set (map (ratio nc) cands). a \<le> 1 / 2)"
      unfolding M_def by (rule Max_le_iff [OF fin ne2])
    then show ?thesis by (simp only: set_map ball_simps)
  qed
  have "(fuzzy_spec ratio sem nc codes = None) = (\<not> 1 / 2 < M)"
    unfolding fuzzy_spec_def Let_def cands_def [symmetric] M_def [symmetric]
    using ne fnd by simp
  then show ?thesis unfolding cands_def [symmetric] le by auto
qed

text \<open>
  Claim C7.  When \<open>find_matching_code\<close> reaches its fuzzy stage (the direct match, the
  match by name, the special subjects, the match by year, semester and name and the core
  pattern all miss), the candidates are exactly the course codes that contain the
  semester of the result code; the result is the first candidate of greatest similarity
  to the normalised result code when that similarity exceeds one half, and the result of
  the semester-only stage otherwise.  The similarity is any function \<open>ratio\<close>.
\<close>

theorem find_matching_code_fuzzy:
  assumes "\<not> has_key course_credits (normalize_subject_code subject_code)"
    and "case map_of subject_name_map (replace_all '' '' [] (lower (r_name result_subject_data))) of
           None \<Rightarrow> True | Some matching_code \<Rightarrow> \<not> has_key course_credits matching_code"
    and "all_parts (extract_core_code_parts (normalize_subject_code subject_code)) =
           Some (year, dept, sem, type_code)"
    and "special_stage special_keywords subject_code (r_name result_subject_data)
           (map fst course_credits) = None"
    and "name_stage subject_names year sem (r_name result_subject_data) (map fst course_credits) =
           Inr None"
    and "find (contains (year @ sem @ take 1 type_code)) (map fst course_credits) = None"
  shows "set (candidates sem (map fst course_credits)) =
           {code \<in> set (map fst course_credits). contains sem code} \<and>
         find_matching_code ratio subject_code course_credits subject_names subject_name_map
             result_subject_data =
           Inr (case fuzzy_spec ratio sem (normalize_subject_code subject_code)
                       (map fst course_credits) of
                  Some code \<Rightarrow> Some code
                | None \<Rightarrow> semester_stage sem (map fst course_credits)) \<and>
         (\<forall>code. fuzzy_spec ratio sem (normalize_subject_code subject_code)
                    (map fst course_credits) = Some code \<longrightarrow>
            code \<in> set (candidates sem (map fst course_credits)) \<and>
            1 / 2 < ratio (normalize_subject_code subject_code) code \<and>
            (\<forall>c' \<in> set (candidates sem (map fst course_credits)).
                ratio (normalize_subject_code subject_code) c' \<le>
                ratio (normalize_subject_code subject_code) code)) \<and>
         ((fuzzy_spec ratio sem (normalize_subject_code subject_code) (map fst course_credits) = None)
            = (\<forall>code \<in> set (candidates sem (map fst course_credits)).
                 ratio (normalize_subject_code subject_code) code \<le> 1 / 2))"
proof (intro conjI allI impI)
  show "set (candidates sem (map fst course_credits)) =
           {code \<in> set (map fst course_credits). contains sem code}"
    by (simp add: candidates_def)
next
  define nc where "nc = normalize_subject_code subject_code"
  define codes where "codes = map fst course_credits"
  have byname: "(case map_of subject_name_map (replace_all '' '' [] (lower (r_name result_subject_data))) of
         None \<Rightarrow> None
       | Some matching_code \<Rightarrow>
           if has_key course_credits matching_code then Some matching_code else None) = None"
    using assms(2) by (auto split: option.splits)
  have fz: "(case fuzzy_stage ratio sem nc codes (None, 0) of
                         (best_match, highest_similarity) \<Rightarrow>
                           if 1 / 2 < highest_similarity then Inr best_match
                           else Inr (semester_stage sem codes)) =
            (Inr (case fuzzy_spec ratio sem nc codes of
                  Some code \<Rightarrow> Some code
                | None \<Rightarrow> semester_stage sem codes) :: py_error + string option)"
  proof -
    obtain b h where bh: "fuzzy_stage ratio sem nc codes (None, 0) = (b, h)"
      by (cases "fuzzy_stage ratio sem nc codes (None, 0)") (rule that)
    have sp: "fuzzy_spec ratio sem nc codes = (if 1 / 2 < h then b else None)"
      using fuzzy_stage_spec [of ratio sem nc codes] unfolding bh by simp
    show ?thesis
    proof (cases "1 / 2 < h")
      case True
      have "b \<noteq> None"
      proof
        assume "b = None"
        then have "fuzzy_spec ratio sem nc codes = None" using sp by simp
        then have le: "\<forall>c \<in> set (candidates sem codes). ratio nc c \<le> 1 / 2"
          by (simp only: fuzzy_spec_None)
        have "h = fold max (map (ratio nc) (candidates sem codes)) 0"
          using bh unfolding fuzzy_stage_char Let_def by simp
        also have "\<dots> \<le> 1 / 2"
          by (rule fold_max_le) (use le in auto)
        finally show False using True by simp
      qed
      then obtain c where "b = Some c" by auto
      then show ?thesis unfolding bh sp using True by simp
    next
      case False
      then show ?thesis unfolding bh sp by simp
    qed
  qed
  show "find_matching_code ratio subject_code course_credits subject_names subject_name_map
             result_subject_data =
           Inr (case fuzzy_spec ratio sem (normalize_subject_code subject_code)
                       (map fst course_credits) of
                  Some code \<Rightarrow> Some code
                | None \<Rightarrow> semester_stage sem (map fst course_credits))"
    unfolding find_matching_code_def Let_def nc_def [symmetric] codes_def [symmetric]
    using assms(1,3,4,5,6) byname fz
    unfolding nc_def [symmetric] codes_def [symmetric]
    by simp
next
  fix code
  assume a: "fuzzy_spec ratio sem (normalize_subject_code subject_code)
                    (map fst course_credits) = Some code"
  show "code \<in> set (candidates sem (map fst course_credits))"
    using fuzzy_spec_Some [OF a] by (rule conjunct1)
  show "1 / 2 < ratio (normalize_subject_code subject_code) code"
    using fuzzy_spec_Some [OF a] by (elim conjE)
  show "\<forall>c' \<in> set (candidates sem (map fst course_credits)).
                ratio (normalize_subject_code subject_code) c' \<le>
                ratio (normalize_subject_code subject_code) code"
    using fuzzy_spec_Some [OF a] by (elim conjE)
next
  show "(fuzzy_spec ratio sem (normalize_subject_code subject_code) (map fst course_credits) = None)
            = (\<forall>code \<in> set (candidates sem (map fst course_credits)).
                 ratio (normalize_subject_code subject_code) code \<le> 1 / 2)"
    by (rule fuzzy_spec_None)
qed

theorem find_matching_code_fuzzy_witness:
  "find_matching_code (\<lambda>a b. if b = ''22IS3ISDS'' then 3 / 4 else 1 / 4) ''23CS3CSDS''
      [(''22ME3MEPC'', 4), (''22IS3ISDS'', 3), (''22IS5ISFM'', 2)] [] []
      \<lparr>r_name = ''Data Structures'', r_grade = ''A'', r_normalized_code = ''23CS3CSDS''\<rparr> =
     Inr (Some ''22IS3ISDS'') \<and>
   candidates ''3'' [''22ME3MEPC'', ''22IS3ISDS'', ''22IS5ISFM''] = [''22ME3MEPC'', ''22IS3ISDS''] \<and>
   find_matching_code (\<lambda>a b. 1 / 2) ''23CS3CSDS''
      [(''22ME3MEPC'', 4), (''22IS3ISDS'', 3), (''22IS5ISFM'', 2)] [] []
      \<lparr>r_name = ''Data Structures'', r_grade = ''A'', r_normalized_code = ''23CS3CSDS''\<rparr> =
     Inr (Some ''22ME3MEPC'')"
proof -
  define cc :: "(string \<times> real) list" where
    "cc = [(''22ME3MEPC'', 4), (''22IS3ISDS'', 3), (''22IS5ISFM'', 2)]"
  define rd where
    "rd = \<lparr>r_name = ''Data Structures'', r_grade = ''A'', r_normalized_code = ''23CS3CSDS''\<rparr>"
  have n: "normalize_subject_code ''23CS3CSDS'' = ''23CS3CSDS''" by code_simp
  have h1: "\<not> has_key cc (normalize_subject_code ''23CS3CSDS'')"
    unfolding n cc_def by (simp add: has_key_def)
  have h2: "case map_of ([] :: (string \<times> string) list) (replace_all '' '' [] (lower (r_name rd))) of
           None \<Rightarrow> True | Some matching_code \<Rightarrow> \<not> has_key cc matching_code"
    by simp
  have h3: "all_parts (extract_core_code_parts (normalize_subject_code ''23CS3CSDS'')) =
           Some (''23'', ''CS'', ''3'', ''CSDS'')"
    unfolding n by code_simp
  have h4: "special_stage special_keywords ''23CS3CSDS'' (r_name rd) (map fst cc) = None"
    unfolding cc_def rd_def by code_simp
  have h5: "name_stage [] ''23'' ''3'' (r_name rd) (map fst cc) = Inr None"
    unfolding cc_def rd_def by code_simp
  have h6: "find (contains (''23'' @ ''3'' @ take 1 ''CSDS'')) (map fst cc) = None"
    unfolding cc_def by code_simp
  have c: "candidates ''3'' (map fst cc) = [''22ME3MEPC'', ''22IS3ISDS'']"
    unfolding cc_def by code_simp
  have s1: "fuzzy_spec (\<lambda>a b. if b = ''22IS3ISDS'' then 3 / 4 else 1 / 4) ''3'' ''23CS3CSDS''
              (map fst cc) = Some ''22IS3ISDS''"
    unfolding fuzzy_spec_def c Let_def by simp
  have s2: "fuzzy_spec (\<lambda>a b. 1 / 2) ''3'' ''23CS3CSDS'' (map fst cc) = None"
    unfolding fuzzy_spec_def c Let_def by simp
  have s3: "semester_stage ''3'' (map fst cc) = Some ''22ME3MEPC''"
    unfolding cc_def by code_simp
  note a = find_matching_code_fuzzy [OF h1 h2 h3 h4 h5 h6,
      of "\<lambda>a b. if b = ''22IS3ISDS'' then 3 / 4 else 1 / 4", THEN conjunct2, THEN conjunct1,
      unfolded n s1 option.case]
  note b = find_matching_code_fuzzy [OF h1 h2 h3 h4 h5 h6,
      of "\<lambda>a b. 1 / 2", THEN conjunct2, THEN conjunct1, unfolded n s2 s3 option.case]
  show ?thesis
    using a b c unfolding cc_def rd_def by simp
qed


section \<open>The result of the matcher\<close>



















section \<open>Grades and grade points\<close>




























end
